theory Spec2Isabelle
  imports Main "HOL-Library.AList" "HOL-Library.Char_ord" "HOL-Library.List_Lexorder"
    "HOL-Library.Product_Lexorder"
begin

section \<open>Python strings\<close>

text \<open>
  A Python \<open>str\<close> is modelled as a \<^typ>\<open>string\<close>, each \<^typ>\<open>char\<close> read as the code
  point of the same number (0 to 255). Strings are compared by code point, which is the
  lexicographic order of \<open>List_Lexorder\<close> over \<open>Char_ord\<close>.
\<close>

definition code :: "char \<Rightarrow> nat" where
  "code c = of_char c"

text \<open>\<open>str.lower()\<close>: on the code points below 256 only A-Z and the accented capitals
  0xC0-0xDE (without the multiplication sign 0xD7) change, each by +32.\<close>

definition lower_char :: "char \<Rightarrow> char" where
  "lower_char c =
     (if (65 \<le> code c \<and> code c \<le> 90) \<or> (192 \<le> code c \<and> code c \<le> 222 \<and> code c \<noteq> 215)
      then char_of (code c + 32) else c)"

definition lower :: "string \<Rightarrow> string" where
  "lower s = map lower_char s"

text \<open>\<open>str.isspace()\<close> on one character, and \<open>str.strip()\<close> without argument.\<close>

definition isspace :: "char \<Rightarrow> bool" where
  "isspace c \<longleftrightarrow> (9 \<le> code c \<and> code c \<le> 13) \<or> (28 \<le> code c \<and> code c \<le> 32)
     \<or> code c = 133 \<or> code c = 160"

definition strip :: "string \<Rightarrow> string" where
  "strip s = rev (dropWhile isspace (rev (dropWhile isspace s)))"

text \<open>\<open>sep.join(parts)\<close>.\<close>

fun join :: "string \<Rightarrow> string list \<Rightarrow> string" where
  "join sep [] = []"
| "join sep [x] = x"
| "join sep (x # y # ys) = x @ sep @ join sep (y # ys)"

text \<open>\<open>needle in hay\<close> on two strings: \<open>needle\<close> occurs in \<open>hay\<close> as a contiguous block.\<close>

fun str_contains :: "string \<Rightarrow> string \<Rightarrow> bool" where
  "str_contains [] needle = (needle = [])"
| "str_contains (c # cs) needle =
     (take (length needle) (c # cs) = needle \<or> str_contains cs needle)"

text \<open>\<open>xs[start:end]\<close> on a list, with Python's treatment of negative and out-of-range
  bounds.\<close>

definition slice_bound :: "int \<Rightarrow> int \<Rightarrow> nat" where
  "slice_bound n i = (let j = (if i < 0 then i + n else i) in nat (max 0 (min n j)))"

definition py_slice :: "'a list \<Rightarrow> int \<Rightarrow> int \<Rightarrow> 'a list" where
  "py_slice xs start end =
     (let n = int (length xs); s = slice_bound n start; e = slice_bound n end
      in take (e - s) (drop s xs))"

section \<open>The tokenizer\<close>

definition is_token_char :: "char \<Rightarrow> bool" where
  "is_token_char c \<longleftrightarrow> (97 \<le> code c \<and> code c \<le> 122) \<or> (48 \<le> code c \<and> code c \<le> 57)"

text \<open>\<open>re.split(r"[^a-z0-9]+", text)\<close>: the pieces between the maximal runs of characters
  outside a-z, 0-9; a run at either end of the text leaves an empty piece there.\<close>

function re_split :: "string \<Rightarrow> string \<Rightarrow> string list" where
  "re_split cur [] = [cur]"
| "re_split cur (c # cs) =
     (if is_token_char c then re_split (cur @ [c]) cs
      else cur # re_split [] (dropWhile (\<lambda>x. \<not> is_token_char x) cs))"
  by pat_completeness auto
termination
  by (relation "measure (\<lambda>(cur, s). length s)") (auto simp: length_dropWhile_le less_Suc_eq_le)

definition tokenize :: "string \<Rightarrow> string list" where
  "tokenize text =
     (if text = [] then [] else filter (\<lambda>t. t \<noteq> []) (re_split [] (lower text)))"

section \<open>JSON values and Python's \<open>str\<close> of them\<close>

text \<open>
  The values \<open>resp.json()\<close> returns. An object keeps its entries in order, as a Python
  \<open>dict\<close> does; a parsed object has no key twice. Numbers are the integers: floating point
  numbers are left out of the model.
\<close>

datatype json = JNull | JBool bool | JNum int | JStr string | JArr "json list"
  | JObj "(string \<times> json) list"

type_synonym doc = "(string \<times> json) list"

datatype error = TypeError | ValueError | KeyError | UnboundLocalError

definition digit_char :: "nat \<Rightarrow> char" where
  "digit_char n = char_of (48 + n)"

function nat_digits :: "nat \<Rightarrow> string" where
  "nat_digits n = (if n < 10 then [digit_char n] else nat_digits (n div 10) @ [digit_char (n mod 10)])"
  by pat_completeness auto
termination
  by (relation "measure id") auto

declare nat_digits.simps [simp del]

definition str_int :: "int \<Rightarrow> string" where
  "str_int i = (if i < 0 then CHR ''-'' # nat_digits (nat (- i)) else nat_digits (nat i))"

text \<open>\<open>repr\<close> of a string: quoted with \<open>'\<close>, or with \<open>"\<close> when the string holds a \<open>'\<close> and
  no \<open>"\<close>; the quote and the backslash escaped, tab, newline and carriage return by their
  letter, every other unprintable character as \<open>\xNN\<close>.\<close>

definition hex_char :: "nat \<Rightarrow> char" where
  "hex_char n = (if n < 10 then char_of (48 + n) else char_of (87 + n))"

definition printable :: "char \<Rightarrow> bool" where
  "printable c \<longleftrightarrow> (32 \<le> code c \<and> code c \<le> 126) \<or> (161 \<le> code c \<and> code c \<noteq> 173)"

definition repr_char :: "char \<Rightarrow> char \<Rightarrow> string" where
  "repr_char quote c =
     (if c = quote \<or> c = CHR 0x5C then [CHR 0x5C, c]
      else if c = CHR 0x09 then [CHR 0x5C, CHR ''t'']
      else if c = CHR 0x0A then [CHR 0x5C, CHR ''n'']
      else if c = CHR 0x0D then [CHR 0x5C, CHR ''r'']
      else if printable c then [c]
      else [CHR 0x5C, CHR ''x'', hex_char (code c div 16), hex_char (code c mod 16)])"

definition repr_str :: "string \<Rightarrow> string" where
  "repr_str s =
     (let quote = (if CHR 0x27 \<in> set s \<and> CHR 0x22 \<notin> set s then CHR 0x22 else CHR 0x27)
      in quote # concat (map (repr_char quote) s) @ [quote])"

fun py_repr :: "json \<Rightarrow> string"
  and repr_elems :: "json list \<Rightarrow> string list"
  and repr_pairs :: "(string \<times> json) list \<Rightarrow> string list" where
  "py_repr JNull = ''None''"
| "py_repr (JBool b) = (if b then ''True'' else ''False'')"
| "py_repr (JNum n) = str_int n"
| "py_repr (JStr s) = repr_str s"
| "py_repr (JArr xs) = CHR 0x5B # join '', '' (repr_elems xs) @ [CHR 0x5D]"
| "py_repr (JObj kvs) = CHR 0x7B # join '', '' (repr_pairs kvs) @ [CHR 0x7D]"
| "repr_elems [] = []"
| "repr_elems (x # xs) = py_repr x # repr_elems xs"
| "repr_pairs [] = []"
| "repr_pairs ((k, v) # kvs) = (repr_str k @ '': '' @ py_repr v) # repr_pairs kvs"

text \<open>\<open>str(v)\<close>: a string is itself, any other value its \<open>repr\<close>.\<close>

definition py_str :: "json \<Rightarrow> string" where
  "py_str v = (case v of JStr s \<Rightarrow> s | _ \<Rightarrow> py_repr v)"

text \<open>\<open>d.get(k)\<close> on a dict: the value, or \<open>None\<close>.\<close>

definition dict_get :: "doc \<Rightarrow> string \<Rightarrow> json" where
  "dict_get d k = (case map_of d k of None \<Rightarrow> JNull | Some v \<Rightarrow> v)"

text \<open>The string-valued entries of a dict, in the order of \<open>d.values()\<close>.\<close>

fun str_values :: "doc \<Rightarrow> string list" where
  "str_values [] = []"
| "str_values ((k, JStr s) # kvs) = s # str_values kvs"
| "str_values ((k, v) # kvs) = str_values kvs"

section \<open>The search engine\<close>

text \<open>
  \<open>SearchEngine\<close> has two attributes. \<open>index\<close> is a \<open>defaultdict(set)\<close> from token to the
  set of document ids, read with \<open>index.get(t, set())\<close>: a total function whose value at
  a token never stored is the empty set. \<open>docs\<close> is a \<open>dict\<close> from id to document, kept in
  insertion order: an association list with distinct keys, written by \<open>AList.update\<close>
  (a key already there keeps its place and takes the new value; a new key goes last).
\<close>

record engine =
  index :: "string \<Rightarrow> string set"
  docs :: "(string \<times> doc) list"

definition init_engine :: engine where
  "init_engine = \<lparr>index = (\<lambda>_. {}), docs = []\<rparr>"

text \<open>The part of the loop body of \<open>build_index\<close> after \<open>doc_id\<close> is known (lines 39-47).\<close>

definition add_doc :: "string \<Rightarrow> doc \<Rightarrow> engine \<Rightarrow> engine" where
  "add_doc doc_id d e =
     (let full = join '' '' (str_values d)
      in e\<lparr>docs := AList.update doc_id d (docs e),
           index := fold (\<lambda>token idx. idx(token := insert doc_id (idx token)))
                      (remdups (tokenize full)) (index e)\<rparr>)"

text \<open>Lines 31-38 on a dict: the document's id, or nothing (\<open>continue\<close>).\<close>

definition resolve_id :: "string \<Rightarrow> doc \<Rightarrow> string option" where
  "resolve_id id_field d =
     (if map_of d id_field = None then
        (case map_of d ''_id'' of
           Some v \<Rightarrow> Some (py_str v)
         | None \<Rightarrow> None)
      else Some (py_str (the (map_of d id_field))))"

text \<open>
  One round of the loop (lines 30-47) on one element of \<open>docs\<close>. The elements are what
  the fetcher delivers, so any JSON value: \<open>id_field in d\<close> is a key test on a dict, a
  substring test on a string, a membership test on a list, and a \<open>TypeError\<close> on a number,
  a boolean or \<open>None\<close>; \<open>d[id_field]\<close> on a string or a list is a \<open>TypeError\<close>.
\<close>

fun index_doc :: "string \<Rightarrow> json \<Rightarrow> engine \<Rightarrow> error + engine" where
  "index_doc id_field (JObj d) e =
     (case resolve_id id_field d of
        None \<Rightarrow> Inr e
      | Some doc_id \<Rightarrow> Inr (add_doc doc_id d e))"
| "index_doc id_field (JStr s) e =
     (if \<not> str_contains s id_field then
        (if str_contains s ''_id'' then Inl TypeError else Inr e)
      else Inl TypeError)"
| "index_doc id_field (JArr xs) e =
     (if JStr id_field \<notin> set xs then
        (if JStr ''_id'' \<in> set xs then Inl TypeError else Inr e)
      else Inl TypeError)"
| "index_doc id_field v e = Inl TypeError"

text \<open>The loop: an exception leaves the engine as the rounds before it made it.\<close>

fun index_all :: "string \<Rightarrow> json list \<Rightarrow> engine \<Rightarrow> error option \<times> engine" where
  "index_all id_field [] e = (None, e)"
| "index_all id_field (d # ds) e =
     (case index_doc id_field d e of
        Inl err \<Rightarrow> (Some err, e)
      | Inr e' \<Rightarrow> index_all id_field ds e')"

definition build_index :: "engine \<Rightarrow> json list \<Rightarrow> string \<Rightarrow> error option \<times> engine" where
  "build_index e ds id_field = index_all id_field ds (e\<lparr>index := (\<lambda>_. {}), docs := []\<rparr>)"

definition score :: "engine \<Rightarrow> string list \<Rightarrow> string \<Rightarrow> int" where
  "score e query_tokens doc_id =
     fold (\<lambda>t s. if doc_id \<in> index e t then s + 1 else s) query_tokens 0"

subsection \<open>The identifier pattern\<close>

definition is_hex :: "char \<Rightarrow> bool" where
  "is_hex c \<longleftrightarrow> (48 \<le> code c \<and> code c \<le> 57) \<or> (97 \<le> code c \<and> code c \<le> 102)
     \<or> (65 \<le> code c \<and> code c \<le> 70)"

text \<open>\<open>[0-9a-fA-F]{n}\<close> at the head of a string: the rest after it, if it matches.\<close>

fun hex_run :: "nat \<Rightarrow> string \<Rightarrow> string option" where
  "hex_run 0 s = Some s"
| "hex_run (Suc n) [] = None"
| "hex_run (Suc n) (c # cs) = (if is_hex c then hex_run n cs else None)"

fun dash :: "string option \<Rightarrow> string option" where
  "dash (Some (c # cs)) = (if c = CHR ''-'' then Some cs else None)"
| "dash _ = None"

text \<open>\<open>uuid_re.match(s)\<close>: the five groups, then \<open>$\<close>, which matches at the end of the
  string and also before a newline that ends it.\<close>

definition uuid_re_match :: "string \<Rightarrow> bool" where
  "uuid_re_match s =
     (case dash (hex_run 8 s) of None \<Rightarrow> False | Some s1 \<Rightarrow>
      case dash (hex_run 4 s1) of None \<Rightarrow> False | Some s2 \<Rightarrow>
      case dash (hex_run 4 s2) of None \<Rightarrow> False | Some s3 \<Rightarrow>
      case dash (hex_run 4 s3) of None \<Rightarrow> False | Some s4 \<Rightarrow>
      case hex_run 12 s4 of None \<Rightarrow> False | Some rest \<Rightarrow> rest = [] \<or> rest = [CHR 0x0A])"

subsection \<open>\<open>search\<close>\<close>

text \<open>\<open>[self.docs[i] for i in ids]\<close>: a missing id raises \<open>KeyError\<close>.\<close>

fun lookup_docs :: "engine \<Rightarrow> string list \<Rightarrow> error + doc list" where
  "lookup_docs e [] = Inr []"
| "lookup_docs e (i # ids) =
     (case map_of (docs e) i of
        None \<Rightarrow> Inl KeyError
      | Some d \<Rightarrow> (case lookup_docs e ids of Inl err \<Rightarrow> Inl err | Inr ds \<Rightarrow> Inr (d # ds)))"

text \<open>Lines 63-67: the documents whose \<open>id\<close> or \<open>user_id\<close>, as \<open>str\<close>, is \<open>q\<close>.\<close>

definition uuid_matches :: "engine \<Rightarrow> string \<Rightarrow> doc list" where
  "uuid_matches e q =
     map snd (filter (\<lambda>(doc_id, d). py_str (dict_get d ''id'') = q
                                   \<or> py_str (dict_get d ''user_id'') = q) (docs e))"

text \<open>Lines 86-93: \<open>candidate_ids\<close> starts as \<open>None\<close> and takes the union over the tokens.\<close>

definition candidate_ids :: "engine \<Rightarrow> string list \<Rightarrow> string set option" where
  "candidate_ids e q_tokens =
     fold (\<lambda>t c. case c of None \<Rightarrow> Some (index e t) | Some ids \<Rightarrow> Some (ids \<union> index e t))
       q_tokens None"

text \<open>Lines 97-101: the substring scan over the store.\<close>

definition substring_scan :: "engine \<Rightarrow> string \<Rightarrow> string list" where
  "substring_scan e query =
     map fst (filter (\<lambda>(doc_id, d). str_contains (join '' '' (map lower (str_values d)))
                                      (lower query)) (docs e))"

text \<open>
  Lines 95-103. \<open>list(candidate_ids)\<close> lists a set in an order Python does not fix; the
  model lists it in ascending order. The sort that follows has a key that no two ids
  share, so its result is the same for every listing (lemma \<open>ordered_ids_any_listing\<close>).
\<close>

definition candidates :: "engine \<Rightarrow> string \<Rightarrow> string list \<Rightarrow> string list" where
  "candidates e query q_tokens =
     (case candidate_ids e q_tokens of
        None \<Rightarrow> substring_scan e query
      | Some ids \<Rightarrow> if ids = {} then substring_scan e query else sorted_list_of_set ids)"

text \<open>Lines 106-108.\<close>

definition rank :: "engine \<Rightarrow> string list \<Rightarrow> string list \<Rightarrow> string list" where
  "rank e q_tokens cands =
     map snd (sort_key (\<lambda>x. (- fst x, snd x)) (map (\<lambda>cid. (score e q_tokens cid, cid)) cands))"

definition ordered_ids :: "engine \<Rightarrow> string \<Rightarrow> string list" where
  "ordered_ids e query = rank e (tokenize query) (candidates e query (tokenize query))"

definition search :: "engine \<Rightarrow> string \<Rightarrow> int \<Rightarrow> int \<Rightarrow> error + (int \<times> doc list)" where
  "search e query page page_size =
     (if uuid_re_match (strip query) then
        (let q = strip query;
             matches = uuid_matches e q;
             total = int (length matches);
             start = (page - 1) * page_size;
             end = start + page_size
         in Inr (total, py_slice matches start end))
      else if query = [] then
        (let all_ids = map fst (docs e);
             total = int (length all_ids);
             start = (page - 1) * page_size;
             end = start + page_size
         in case lookup_docs e (py_slice all_ids start end) of
              Inl err \<Rightarrow> Inl err
            | Inr results \<Rightarrow> Inr (total, results))
      else if tokenize query = [] then Inr (0, [])
      else
        (let ids = ordered_ids e query;
             total = int (length ids);
             start = (page - 1) * page_size;
             end = start + page_size
         in case lookup_docs e (py_slice ids start end) of
              Inl err \<Rightarrow> Inl err
            | Inr results \<Rightarrow> Inr (total, results)))"

section \<open>The fetcher\<close>

text \<open>
  The upstream is a function: \<open>upstream n skip limit\<close> is the outcome of the \<open>n\<close>-th
  \<open>requests.get\<close> of one call of \<open>fetch_messages_once\<close> (counted from 0), sent with the
  parameters \<open>skip\<close> and \<open>limit\<close>. \<open>Body d\<close>: no error status, and \<open>resp.json()\<close> is \<open>d\<close>.
  \<open>HttpError s\<close>: \<open>raise_for_status\<close> raises \<open>HTTPError\<close> with status \<open>s\<close>. \<open>NetError\<close>:
  \<open>requests.get\<close> or \<open>resp.json()\<close> raises another \<open>RequestException\<close>. The pauses
  (\<open>time.sleep\<close>) and the log lines are not modelled.
\<close>

datatype response = Body json | HttpError nat | NetError

type_synonym upstream = "nat \<Rightarrow> int \<Rightarrow> int \<Rightarrow> response"

datatype exc = HTTPError nat | RequestException

text \<open>Python's truth value of a JSON value.\<close>

fun truthy :: "json \<Rightarrow> bool" where
  "truthy JNull = False"
| "truthy (JBool b) = b"
| "truthy (JNum n) = (n \<noteq> 0)"
| "truthy (JStr s) = (s \<noteq> [])"
| "truthy (JArr xs) = (xs \<noteq> [])"
| "truthy (JObj kvs) = (kvs \<noteq> [])"

text \<open>
  \<open>int(s)\<close> on a string: the blanks at both ends skipped, a sign, then digits, single
  underscores allowed between digits. The blanks that \<open>int\<close> skips are not those of
  \<open>str.strip\<close>: below 128 they are the code points 9-13 and 32 only (the control
  characters 0x1C-0x1F are no blanks here), above 128 they are 0x85 and 0xA0. A string
  with more digits than the interpreter's limit on the conversion, 4300 unless it is
  configured otherwise, is refused with \<open>ValueError\<close> as an ill-formed one is.
\<close>

definition int_space :: "char \<Rightarrow> bool" where
  "int_space c \<longleftrightarrow> (9 \<le> code c \<and> code c \<le> 13) \<or> code c = 32 \<or> code c = 133 \<or> code c = 160"

definition int_strip :: "string \<Rightarrow> string" where
  "int_strip s = rev (dropWhile int_space (rev (dropWhile int_space s)))"

definition max_str_digits :: nat where
  "max_str_digits = 4300"

definition is_digit :: "char \<Rightarrow> bool" where
  "is_digit c \<longleftrightarrow> 48 \<le> code c \<and> code c \<le> 57"

definition digit_val :: "char \<Rightarrow> nat" where
  "digit_val c = code c - 48"

fun parse_digits :: "nat \<Rightarrow> string \<Rightarrow> nat option" where
  "parse_digits acc [] = Some acc"
| "parse_digits acc [c] = (if is_digit c then Some (10 * acc + digit_val c) else None)"
| "parse_digits acc (c # d # cs) =
     (if is_digit c then parse_digits (10 * acc + digit_val c) (d # cs)
      else if c = CHR ''_'' \<and> is_digit d then parse_digits (10 * acc + digit_val d) cs
      else None)"

fun parse_unsigned :: "string \<Rightarrow> nat option" where
  "parse_unsigned [] = None"
| "parse_unsigned (c # cs) = (if is_digit c then parse_digits (digit_val c) cs else None)"

definition int_of_str :: "string \<Rightarrow> int option" where
  "int_of_str s =
     (if max_str_digits < length (filter is_digit s) then None
      else
        (case int_strip s of
           [] \<Rightarrow> None
         | c # cs \<Rightarrow>
             if c = CHR ''-'' then map_option (\<lambda>n. - int n) (parse_unsigned cs)
             else if c = CHR ''+'' then map_option int (parse_unsigned cs)
             else map_option int (parse_unsigned (c # cs))))"

text \<open>\<open>int(v)\<close> on a JSON value.\<close>

fun py_int :: "json \<Rightarrow> error + int" where
  "py_int (JNum n) = Inr n"
| "py_int (JBool b) = Inr (if b then 1 else 0)"
| "py_int (JStr s) = (case int_of_str s of None \<Rightarrow> Inl ValueError | Some n \<Rightarrow> Inr n)"
| "py_int v = Inl TypeError"

text \<open>Lines 28-38: the probe, the request number 0 of a call without \<open>message_limit\<close>.
  A \<open>RequestException\<close> is caught; what \<open>int\<close> raises is not.\<close>

definition probe :: "upstream \<Rightarrow> error + int option" where
  "probe up =
     (case up 0 0 1 of
        Body pdata \<Rightarrow>
          (case pdata of
             JObj kvs \<Rightarrow>
               if truthy (dict_get kvs ''total'') then
                 (case py_int (dict_get kvs ''total'') of
                    Inl err \<Rightarrow> Inl err
                  | Inr n \<Rightarrow> Inr (Some n))
               else Inr None
           | _ \<Rightarrow> Inr None)
      | _ \<Rightarrow> Inr None)"

text \<open>
  Lines 50-79, the \<open>for attempt\<close> loop of one page, on the variables
  \<open>(last_exc, data, n)\<close>, \<open>n\<close> the number of requests sent so far. The variable \<open>data\<close> is
  \<open>None\<close> while Python has not bound it, \<open>Some JNull\<close> when it holds Python's \<open>None\<close>; the
  loop binds it on a success and on a 401 or 403, and on no other path.
\<close>

fun attempts :: "upstream \<Rightarrow> int \<Rightarrow> int \<Rightarrow> nat \<Rightarrow> exc option \<times> json option \<times> nat
    \<Rightarrow> exc option \<times> json option \<times> nat" where
  "attempts up skip chunk 0 v = v"
| "attempts up skip chunk (Suc k) (last_exc, data, n) =
     (case up n skip chunk of
        Body d \<Rightarrow> (None, Some d, Suc n)
      | HttpError status \<Rightarrow>
          if status = 401 \<or> status = 403 then (Some (HTTPError status), Some JNull, Suc n)
          else attempts up skip chunk k (Some (HTTPError status), data, Suc n)
      | NetError \<Rightarrow> attempts up skip chunk k (Some RequestException, data, Suc n))"

text \<open>Lines 86-107: the items of a payload and its \<open>total\<close> (\<open>JNull\<close> for \<open>None\<close>).\<close>

fun first_list :: "doc \<Rightarrow> string list \<Rightarrow> json list option" where
  "first_list d [] = None"
| "first_list d (key # keys) =
     (case map_of d key of
        Some (JArr xs) \<Rightarrow> Some xs
      | _ \<Rightarrow> first_list d keys)"

fun is_dict :: "json \<Rightarrow> bool" where
  "is_dict (JObj kvs) = True"
| "is_dict v = False"

fun normalize :: "json \<Rightarrow> error + json list \<times> json" where
  "normalize (JArr xs) = Inr (xs, JNull)"
| "normalize (JObj d) =
     (case map_of d ''items'' of
        Some (JArr xs) \<Rightarrow> Inr (xs, dict_get d ''total'')
      | _ \<Rightarrow>
         (case first_list d [''messages'', ''data'', ''results''] of
            Some xs \<Rightarrow> Inr (xs, dict_get d ''total'')
          | None \<Rightarrow>
              if list_all is_dict (map snd d) then Inr (map snd d, JNull)
              else Inr ([], JNull)))"
| "normalize v = Inl ValueError"

text \<open>Line 115: \<open>total is not None and len(all_items) >= int(total)\<close>.\<close>

definition total_reached :: "json \<Rightarrow> nat \<Rightarrow> error + bool" where
  "total_reached tot n =
     (if tot = JNull then Inr False
      else case py_int tot of Inl err \<Rightarrow> Inl err | Inr t \<Rightarrow> Inr (t \<le> int n))"

record fetch_state =
  all_items :: "json list"
  skip :: int
  data :: "json option"
  sent :: nat

datatype step = Return "json list" | Raise error | Next fetch_state

text \<open>
  One round of \<open>while True\<close> (lines 48-123). Reading \<open>data\<close> while it is unbound raises
  \<open>UnboundLocalError\<close>.
\<close>

definition page_step :: "upstream \<Rightarrow> int \<Rightarrow> fetch_state \<Rightarrow> step" where
  "page_step up chunk st =
     (case attempts up (skip st) chunk 3 (None, data st, sent st) of
        (last_exc, data', n') \<Rightarrow>
          (case data' of
             None \<Rightarrow> Raise UnboundLocalError
           | Some d \<Rightarrow>
               if last_exc \<noteq> None \<and> d = JNull then Return (all_items st)
               else
                 (case normalize d of
                    Inl err \<Rightarrow> Raise err
                  | Inr (items, tot) \<Rightarrow>
                      if items = [] then Return (all_items st)
                      else
                        (case total_reached tot (length (all_items st @ items)) of
                           Inl err \<Rightarrow> Raise err
                         | Inr reached \<Rightarrow>
                             if reached then Return (all_items st @ items)
                             else if int (length items) < chunk then Return (all_items st @ items)
                             else Next \<lparr>all_items = all_items st @ items,
                                        skip = skip st + chunk, data = Some d, sent = n'\<rparr>))))"

text \<open>What a round that ends the loop hands to the caller.\<close>

fun outcome :: "step \<Rightarrow> (error + json list) option" where
  "outcome (Return xs) = Some (Inr xs)"
| "outcome (Raise err) = Some (Inl err)"
| "outcome (Next st) = None"

text \<open>The loop. \<open>None\<close>: the loop does not end.\<close>

partial_function (option) fetch_loop :: "upstream \<Rightarrow> int \<Rightarrow> fetch_state \<Rightarrow> (error + json list) option"
  where
  "fetch_loop up chunk st =
     (case page_step up chunk st of
        Return xs \<Rightarrow> Some (Inr xs)
      | Raise err \<Rightarrow> Some (Inl err)
      | Next st' \<Rightarrow> fetch_loop up chunk st')"

declare fetch_loop.simps [code]

definition fetch_messages_once :: "upstream \<Rightarrow> int \<Rightarrow> int option \<Rightarrow> (error + json list) option"
  where
  "fetch_messages_once up timeout message_limit =
     (case message_limit of
        Some m \<Rightarrow> fetch_loop up m \<lparr>all_items = [], skip = 0, data = None, sent = 0\<rparr>
      | None \<Rightarrow>
          (case probe up of
             Inl err \<Rightarrow> Some (Inl err)
           | Inr found \<Rightarrow>
               fetch_loop up (case found of Some m \<Rightarrow> m | None \<Rightarrow> 100)
                 \<lparr>all_items = [], skip = 0, data = None, sent = 1\<rparr>))"

subsection \<open>The loader and the start of the service\<close>

record loader =
  loader_docs :: "json list"

text \<open>\<open>DataLoader.load\<close>: the assignment to \<open>self.docs\<close> happens only if the fetch returns.\<close>

definition load :: "loader \<Rightarrow> upstream \<Rightarrow> (error option \<times> loader) option" where
  "load l up =
     (case fetch_messages_once up 10 None of
        None \<Rightarrow> None
      | Some (Inl err) \<Rightarrow> Some (Some err, l)
      | Some (Inr ds) \<Rightarrow> Some (None, l\<lparr>loader_docs := ds\<rparr>))"

text \<open>\<open>lifespan\<close> in \<open>main.py\<close> (lines 32-41): load, then build the index; an exception
  of either is caught and logged.\<close>

definition startup :: "loader \<times> engine \<Rightarrow> upstream \<Rightarrow> (loader \<times> engine) option" where
  "startup le up =
     (case load (fst le) up of
        None \<Rightarrow> None
      | Some (Some err, l') \<Rightarrow> Some (l', snd le)
      | Some (None, l') \<Rightarrow> Some (l', snd (build_index (snd le) (loader_docs l') ''id'')))"

section \<open>Notions used in the statements\<close>

subsection \<open>The engine\<close>

text \<open>The keys of the document store, and the identifiers that occur in some posting
  set.\<close>

definition store_ids :: "engine \<Rightarrow> string set" where
  "store_ids e = fst ` set (docs e)"

definition posting_ids :: "engine \<Rightarrow> string set" where
  "posting_ids e = \<Union> (range (index e))"

text \<open>The tokens under which \<open>build_index\<close> files a document (lines 41-46).\<close>

definition doc_tokens :: "doc \<Rightarrow> string list" where
  "doc_tokens d = tokenize (join '' '' (str_values d))"

text \<open>The invariant of the engine: the store has no key twice, and the posting sets hold
  keys of the store only.\<close>

definition wf_engine :: "engine \<Rightarrow> bool" where
  "wf_engine e \<longleftrightarrow> distinct (map fst (docs e)) \<and> posting_ids e \<subseteq> store_ids e"

text \<open>The identifier that \<open>build_index\<close> gives to an element of its input, if any, and the
  identifiers of a whole input, one for each element that has one.\<close>

fun doc_id :: "string \<Rightarrow> json \<Rightarrow> string option" where
  "doc_id id_field (JObj d) = resolve_id id_field d"
| "doc_id id_field v = None"

definition resolved_ids :: "string \<Rightarrow> json list \<Rightarrow> string list" where
  "resolved_ids id_field ds = List.map_filter (doc_id id_field) ds"

text \<open>
  The whole sequence of documents that a query selects, before it is cut into pages:
  the exact matches of an identifier-shaped query, the store for the empty query, and
  the documents of the ranked ids otherwise.
\<close>

definition ranked_docs :: "engine \<Rightarrow> string \<Rightarrow> doc list" where
  "ranked_docs e query =
     (if uuid_re_match (strip query) then uuid_matches e (strip query)
      else if query = [] then map snd (docs e)
      else if tokenize query = [] then []
      else map (\<lambda>i. the (map_of (docs e) i)) (ordered_ids e query))"

text \<open>The documents of a result of \<open>search\<close>.\<close>

fun hits :: "error + (int \<times> doc list) \<Rightarrow> doc list" where
  "hits (Inr (n, results)) = results"
| "hits (Inl err) = []"

subsection \<open>The fetcher\<close>

text \<open>The state of the fetch loop after \<open>k\<close> rounds, when each of them went on to the
  next page.\<close>

fun pages :: "upstream \<Rightarrow> int \<Rightarrow> nat \<Rightarrow> fetch_state \<Rightarrow> fetch_state option" where
  "pages up chunk 0 st = Some st"
| "pages up chunk (Suc k) st =
     (case page_step up chunk st of Next st' \<Rightarrow> pages up chunk k st' | _ \<Rightarrow> None)"

text \<open>A response that the attempt loop retries.\<close>

fun transient :: "response \<Rightarrow> bool" where
  "transient (Body d) = False"
| "transient (HttpError status) = (status \<noteq> 401 \<and> status \<noteq> 403)"
| "transient NetError = True"

text \<open>\<open>answers up chunk st j r\<close>: the page requested in state \<open>st\<close> is answered by \<open>r\<close> at
  its attempt number \<open>j\<close> (counted from 0, so one of the three), the attempts before it
  having failed with a response that is retried.\<close>

definition answers :: "upstream \<Rightarrow> int \<Rightarrow> fetch_state \<Rightarrow> nat \<Rightarrow> response \<Rightarrow> bool" where
  "answers up chunk st j r \<longleftrightarrow>
     j < 3 \<and> list_all (\<lambda>i. transient (up (sent st + i) (skip st) chunk)) [0..<j]
     \<and> up (sent st + j) (skip st) chunk = r"

text \<open>The four payload shapes that the specification accepts: an array; an object with
  an \<open>items\<close> array; an object with a \<open>messages\<close>, \<open>data\<close> or \<open>results\<close> array; an object
  whose every value is an object.\<close>

fun has_list :: "doc \<Rightarrow> string \<Rightarrow> bool" where
  "has_list d key = (case map_of d key of Some (JArr xs) \<Rightarrow> True | _ \<Rightarrow> False)"

fun accepted_shape :: "json \<Rightarrow> bool" where
  "accepted_shape (JArr xs) = True"
| "accepted_shape (JObj d) =
     (has_list d ''items'' \<or> has_list d ''messages'' \<or> has_list d ''data'' \<or> has_list d ''results''
      \<or> list_all is_dict (map snd d))"
| "accepted_shape v = False"

text \<open>The state in which \<open>fetch_messages_once\<close> enters the loop when \<open>message_limit\<close> is
  given.\<close>

definition start_state :: fetch_state where
  "start_state = \<lparr>all_items = [], skip = 0, data = None, sent = 0\<rparr>"

subsection \<open>Inputs of the examples\<close>

text \<open>The three documents of \<open>tests/test_search.py\<close>, and the engine built from them.\<close>

definition ex_docs :: "json list" where
  "ex_docs = [JObj [(''id'', JStr ''1''), (''text'', JStr ''Hello world'')],
              JObj [(''id'', JStr ''2''), (''text'', JStr ''Goodbye world'')],
              JObj [(''id'', JStr ''3''), (''text'', JStr ''Hello there'')]]"

definition old_engine :: engine where
  "old_engine = snd (build_index init_engine ex_docs ''id'')"

text \<open>Two documents with one identifier; a document without a string value; a list
  whose second element is not a document.\<close>

definition dup_docs :: "json list" where
  "dup_docs = [JObj [(''id'', JStr ''1''), (''text'', JStr ''first'')],
               JObj [(''id'', JStr ''1''), (''text'', JStr ''second'')]]"

definition bare_docs :: "json list" where
  "bare_docs = [JObj [(''id'', JNum 7)]]"

definition half_docs :: "json list" where
  "half_docs = [JObj [(''id'', JStr ''9''), (''text'', JStr ''new'')], JNum 5]"

text \<open>An identifier as \<open>id\<close>, inside a text, and as \<open>user_id\<close>; and a query for it, in
  blanks.\<close>

definition uuid_docs :: "json list" where
  "uuid_docs =
     [JObj [(''id'', JStr ''12345678-1234-1234-1234-123456789abc''), (''text'', JStr ''first'')],
      JObj [(''id'', JStr ''x''), (''text'', JStr ''see 12345678-1234-1234-1234-123456789abc'')],
      JObj [(''id'', JStr ''y''), (''user_id'', JStr ''12345678-1234-1234-1234-123456789abc'')]]"

definition uuid_query :: string where
  "uuid_query = ''  12345678-1234-1234-1234-123456789abc ''"

text \<open>
  Upstreams. \<open>dead_upstream\<close> fails every request with a network error. The others
  answer the first request with a page of one document, \<open>doc_a\<close>; after it,
  \<open>flaky_upstream\<close> fails three requests and then answers 401, \<open>auth_upstream\<close> answers
  401, \<open>odd_upstream\<close> answers with an object of no accepted shape, \<open>scalar_upstream\<close>
  with a string, and \<open>endless_upstream\<close> with the same page for ever.
\<close>

definition doc_a :: json where
  "doc_a = JObj [(''id'', JStr ''a'')]"

definition dead_upstream :: upstream where
  "dead_upstream n s l = NetError"

definition flaky_upstream :: upstream where
  "flaky_upstream n s l =
     (if n = 0 then Body (JArr [doc_a]) else if n \<le> 3 then NetError else HttpError 401)"


definition odd_upstream :: upstream where
  "odd_upstream n s l = (if n = 0 then Body (JArr [doc_a]) else Body (JObj [(''foo'', JNum 1)]))"

definition scalar_upstream :: upstream where
  "scalar_upstream n s l = (if n = 0 then Body (JArr [doc_a]) else Body (JStr ''busy''))"


text \<open>An upstream whose page reports its total as a string that starts with the control
  character 0x1C.\<close>

definition control_total_upstream :: upstream where
  "control_total_upstream n s l =
     Body (JObj [(''items'', JArr [JNum 7]), (''total'', JStr [CHR 0x1C, CHR ''1''])])"

section \<open>The engine: invariants of the build\<close>

lemma fold_index_add:
  "fold (\<lambda>token idx. idx(token := insert i (idx token))) ts idx t
     = (if t \<in> set ts then insert i (idx t) else idx t)"
  by (induction ts arbitrary: idx) auto

lemma index_add_doc:
  "index (add_doc i d e) t = (if t \<in> set (doc_tokens d) then insert i (index e t) else index e t)"
  by (simp add: add_doc_def Let_def fold_index_add doc_tokens_def)

lemma docs_add_doc: "docs (add_doc i d e) = AList.update i d (docs e)"
  by (simp add: add_doc_def Let_def)

lemma store_ids_add_doc: "store_ids (add_doc i d e) = insert i (store_ids e)"
  by (simp add: store_ids_def docs_add_doc AList.dom_update)

lemma posting_ids_add_doc: "posting_ids (add_doc i d e) \<subseteq> insert i (posting_ids e)"
  by (auto simp: posting_ids_def index_add_doc split: if_splits)

lemma wf_add_doc: "wf_engine e \<Longrightarrow> wf_engine (add_doc i d e)"
  unfolding wf_engine_def
  using posting_ids_add_doc[of i d e]
  by (auto simp: store_ids_add_doc docs_add_doc AList.distinct_update)

lemma wf_index_doc: "wf_engine e \<Longrightarrow> index_doc idf v e = Inr e' \<Longrightarrow> wf_engine e'"
  by (cases "(idf, v, e)" rule: index_doc.cases) (auto simp: wf_add_doc split: option.splits if_splits)

lemma wf_index_all: "wf_engine e \<Longrightarrow> wf_engine (snd (index_all idf ds e))"
  by (induction ds arbitrary: e) (auto simp: wf_index_doc split: sum.splits)

lemma wf_cleared: "wf_engine (e\<lparr>index := (\<lambda>_. {}), docs := []\<rparr>)"
  by (simp add: wf_engine_def posting_ids_def store_ids_def)

lemma wf_build_index: "wf_engine (snd (build_index e ds idf))"
  by (simp add: build_index_def wf_index_all wf_cleared)

lemma build_index_from_scratch: "build_index e ds idf = build_index init_engine ds idf"
  by (cases e) (simp add: build_index_def init_engine_def)

lemma lookup_docs_iff:
  "lookup_docs e ids = Inr ds \<longleftrightarrow> map (map_of (docs e)) ids = map Some ds"
proof (induction ids arbitrary: ds)
  case Nil
  then show ?case by auto
next
  case (Cons i ids)
  show ?case
  proof (cases "map_of (docs e) i")
    case None
    then show ?thesis by (cases ds) auto
  next
    case (Some d)
    show ?thesis
    proof (cases "lookup_docs e ids")
      case (Inl err)
      then have "\<And>zs. map (map_of (docs e)) ids \<noteq> map Some zs" using Cons.IH by auto
      then show ?thesis using Some Inl by (cases ds) auto
    next
      case (Inr zs)
      then have "map (map_of (docs e)) ids = map Some zs" using Cons.IH by auto
      then show ?thesis using Some Inr by (cases ds) auto
    qed
  qed
qed

lemma lookup_docs_known:
  "set ids \<subseteq> store_ids e \<Longrightarrow> lookup_docs e ids = Inr (map (\<lambda>i. the (map_of (docs e) i)) ids)"
  unfolding lookup_docs_iff store_ids_def
  by (induction ids) (auto dest: weak_map_of_SomeI)

lemma lookup_docs_entries:
  assumes "distinct (map fst (docs e))" "set ys \<subseteq> set (docs e)"
  shows "lookup_docs e (map fst ys) = Inr (map snd ys)"
  unfolding lookup_docs_iff using assms by (induction ys) auto

lemma page_slice:
  assumes "1 \<le> page" "1 \<le> page_size"
  shows "py_slice xs ((page - 1) * page_size) ((page - 1) * page_size + page_size)
           = take (nat page_size) (drop (nat ((page - 1) * page_size)) xs)"
proof -
  define start where "start = (page - 1) * page_size"
  have s0: "0 \<le> start" using assms by (simp add: start_def)
  have sb1: "slice_bound (int (length xs)) start = min (length xs) (nat start)"
    using s0 by (auto simp: slice_bound_def Let_def min_def max_def)
  have sb2: "slice_bound (int (length xs)) (start + page_size) = min (length xs) (nat start + nat page_size)"
    using s0 assms by (auto simp: slice_bound_def Let_def min_def max_def nat_add_distrib)
  show ?thesis
    unfolding py_slice_def Let_def start_def[symmetric] sb1 sb2
    by (cases "nat start \<le> length xs") (auto simp: min_def)
qed

lemma set_py_slice: "set (py_slice xs s e) \<subseteq> set xs"
  unfolding py_slice_def Let_def
  by (meson set_take_subset set_drop_subset subset_trans)

lemma py_slice_map: "py_slice (map f xs) s e = map f (py_slice xs s e)"
  by (simp add: py_slice_def Let_def take_map drop_map)

lemma candidate_ids_fold:
  "fold (\<lambda>t c. case c of None \<Rightarrow> Some (index e t) | Some ids \<Rightarrow> Some (ids \<union> index e t)) ts (Some A)
     = Some (A \<union> (\<Union>t\<in>set ts. index e t))"
  by (induction ts arbitrary: A) auto

lemma candidate_ids_eq:
  "candidate_ids e ts = (if ts = [] then None else Some (\<Union>t\<in>set ts. index e t))"
  by (cases ts) (auto simp: candidate_ids_def candidate_ids_fold)

lemma finite_store_ids: "finite (store_ids e)"
  by (simp add: store_ids_def)

lemma index_subset_posting: "index e t \<subseteq> posting_ids e"
  by (auto simp: posting_ids_def)

lemma union_index_subset: "wf_engine e \<Longrightarrow> (\<Union>t\<in>set ts. index e t) \<subseteq> store_ids e"
  using index_subset_posting by (fastforce simp: wf_engine_def)

lemma set_substring_scan: 
  "set (substring_scan e query) = {k. \<exists>d. (k, d) \<in> set (docs e) \<and>
      str_contains (join '' '' (map lower (str_values d))) (lower query)}"
  by (auto simp: substring_scan_def image_iff)

lemma substring_scan_subset: "set (substring_scan e query) \<subseteq> store_ids e"
  by (force simp: set_substring_scan store_ids_def)

lemma set_candidates:
  assumes "wf_engine e" "ts \<noteq> []"
  shows "set (candidates e query ts) =
     (if (\<Union>t\<in>set ts. index e t) = {} then set (substring_scan e query) else (\<Union>t\<in>set ts. index e t))"
proof -
  have "finite (\<Union>t\<in>set ts. index e t)"
    using union_index_subset[OF assms(1)] finite_store_ids finite_subset by blast
  then show ?thesis using assms(2) by (simp add: candidates_def candidate_ids_eq)
qed

lemma candidates_subset: "wf_engine e \<Longrightarrow> ts \<noteq> [] \<Longrightarrow> set (candidates e query ts) \<subseteq> store_ids e"
  using union_index_subset[of e ts] substring_scan_subset[of e query]
  by (auto simp: set_candidates)

lemma set_rank: "set (rank e ts cands) = set cands"
  by (auto simp: rank_def image_iff)

lemma length_rank: "length (rank e ts cands) = length cands"
  by (simp add: rank_def)

lemma search_pages:
  assumes "wf_engine e" "1 \<le> page" "1 \<le> page_size"
  shows "search e query page page_size =
     Inr (int (length (ranked_docs e query)),
          take (nat page_size) (drop (nat ((page - 1) * page_size)) (ranked_docs e query)))"
proof -
  let ?s = "(page - 1) * page_size"
  note ps = page_slice[OF assms(2,3)]
  consider (uuid) "uuid_re_match (strip query)"
    | (empty) "\<not> uuid_re_match (strip query)" "query = []"
    | (notok) "\<not> uuid_re_match (strip query)" "query \<noteq> []" "tokenize query = []"
    | (general) "\<not> uuid_re_match (strip query)" "query \<noteq> []" "tokenize query \<noteq> []"
    by blast
  then show ?thesis
  proof cases
    case uuid
    then show ?thesis by (simp add: search_def ranked_docs_def Let_def ps)
  next
    case empty
    have "set (py_slice (docs e) ?s (?s + page_size)) \<subseteq> set (docs e)"
      by (rule set_py_slice)
    then have "lookup_docs e (map fst (py_slice (docs e) ?s (?s + page_size)))
                 = Inr (map snd (py_slice (docs e) ?s (?s + page_size)))"
      using assms(1) by (intro lookup_docs_entries) (auto simp: wf_engine_def)
    then show ?thesis using empty
      by (simp add: search_def ranked_docs_def Let_def py_slice_map ps[symmetric])
  next
    case notok
    then show ?thesis by (simp add: search_def ranked_docs_def)
  next
    case general
    have "set (ordered_ids e query) \<subseteq> store_ids e"
      using candidates_subset[OF assms(1) general(3)] by (simp add: ordered_ids_def set_rank)
    then have "set (py_slice (ordered_ids e query) ?s (?s + page_size)) \<subseteq> store_ids e"
      using set_py_slice by fastforce
    then have "lookup_docs e (py_slice (ordered_ids e query) ?s (?s + page_size))
       = Inr (map (\<lambda>i. the (map_of (docs e) i)) (py_slice (ordered_ids e query) ?s (?s + page_size)))"
      by (rule lookup_docs_known)
    then show ?thesis using general
      by (simp add: search_def ranked_docs_def Let_def py_slice_map[symmetric] ps[symmetric])
  qed
qed

lemma ranked_docs_in_store:
  assumes "wf_engine e"
  shows "set (ranked_docs e query) \<subseteq> snd ` set (docs e)"
proof -
  have "set (ordered_ids e query) \<subseteq> store_ids e" if "tokenize query \<noteq> []"
    using candidates_subset[OF assms(1) that] by (simp add: ordered_ids_def set_rank)
  then have "tokenize query \<noteq> [] \<Longrightarrow> i \<in> set (ordered_ids e query) \<Longrightarrow>
      the (map_of (docs e) i) \<in> snd ` set (docs e)" for i
    by (metis (no_types, lifting) domD dom_map_of_conv_image_fst image_eqI map_of_SomeD option.sel snd_conv store_ids_def subsetD)
  then show ?thesis
    by (auto simp: ranked_docs_def uuid_matches_def)
qed

lemma concat_pages:
  "concat (map (\<lambda>k. take m (drop (k * m) xs)) [0..<n]) = take (n * m) xs"
proof (induction n)
  case 0
  show ?case by simp
next
  case (Suc n)
  have "take (Suc n * m) xs = take (n * m + m) xs" by (simp add: add.commute)
  also have "\<dots> = take (n * m) xs @ take m (drop (n * m) xs)" by (rule take_add)
  finally show ?case using Suc by simp
qed

lemma set_update_cases:
  "p \<in> set (AList.update k v xs) \<Longrightarrow> p = (k, v) \<or> p \<in> set xs"
  by (induction xs) (auto split: if_splits)

lemma tokens_indexed_add_doc:
  assumes "\<forall>(k, d)\<in>set (docs e). \<forall>t\<in>set (doc_tokens d). k \<in> index e t"
  shows "\<forall>(k, d')\<in>set (docs (add_doc i d e)). \<forall>t\<in>set (doc_tokens d'). k \<in> index (add_doc i d e) t"
  using assms by (auto simp: docs_add_doc index_add_doc dest!: set_update_cases)

lemma tokens_indexed_index_doc:
  assumes "\<forall>(k, d)\<in>set (docs e). \<forall>t\<in>set (doc_tokens d). k \<in> index e t"
    and "index_doc idf v e = Inr e'"
  shows "\<forall>(k, d)\<in>set (docs e'). \<forall>t\<in>set (doc_tokens d). k \<in> index e' t"
proof (cases v)
  case (JObj d)
  show ?thesis
  proof (cases "resolve_id idf d")
    case None
    then show ?thesis using assms JObj by simp
  next
    case (Some i)
    then have "e' = add_doc i d e" using assms(2) JObj by simp
    then show ?thesis using tokens_indexed_add_doc[OF assms(1)] by simp
  qed
qed (use assms in \<open>auto split: if_splits\<close>)

lemma tokens_indexed_index_all:
  assumes "\<forall>(k, d)\<in>set (docs e). \<forall>t\<in>set (doc_tokens d). k \<in> index e t"
  shows "\<forall>(k, d)\<in>set (docs (snd (index_all idf ds e))). \<forall>t\<in>set (doc_tokens d).
           k \<in> index (snd (index_all idf ds e)) t"
  using assms
proof (induction ds arbitrary: e)
  case Nil
  then show ?case by simp
next
  case (Cons v ds)
  show ?case
  proof (cases "index_doc idf v e")
    case (Inl err)
    then show ?thesis using Cons.prems by simp
  next
    case (Inr e')
    from tokens_indexed_index_doc[OF Cons.prems Inr] Cons.IH[of e'] Inr
    show ?thesis by simp
  qed
qed

lemma tokens_indexed_build:
  "\<forall>(k, d)\<in>set (docs (snd (build_index e0 ds idf))). \<forall>t\<in>set (doc_tokens d).
           k \<in> index (snd (build_index e0 ds idf)) t"
  unfolding build_index_def by (rule tokens_indexed_index_all) simp

lemma index_all_append:
  "index_all idf (xs @ ys) e =
     (case index_all idf xs e of (None, e') \<Rightarrow> index_all idf ys e' | (Some err, e') \<Rightarrow> (Some err, e'))"
  by (induction xs arbitrary: e) (auto split: sum.splits)

lemma store_ids_index_all:
  "index_all idf ds e = (None, e') \<Longrightarrow> store_ids e' = store_ids e \<union> set (resolved_ids idf ds)"
proof (induction ds arbitrary: e)
  case Nil
  then show ?case by (simp add: resolved_ids_def map_filter_simps)
next
  case (Cons v ds)
  from Cons.prems obtain e1 where e1: "index_doc idf v e = Inr e1" "index_all idf ds e1 = (None, e')"
    by (cases "index_doc idf v e") auto
  have "store_ids e1 = store_ids e \<union> set (resolved_ids idf [v])"
    using e1(1)
    by (cases "(idf, v, e)" rule: index_doc.cases)
       (auto simp: resolved_ids_def map_filter_simps store_ids_add_doc split: option.splits if_splits)
  moreover have "resolved_ids idf (v # ds) = resolved_ids idf [v] @ resolved_ids idf ds"
    by (simp add: resolved_ids_def map_filter_simps split: option.splits)
  ultimately show ?case using Cons.IH[OF e1(2)] by auto
qed

lemma store_ids_build_index:
  "build_index e0 ds idf = (None, e) \<Longrightarrow> store_ids e = set (resolved_ids idf ds)"
  unfolding build_index_def by (drule store_ids_index_all) (simp add: store_ids_def)

lemma not_uuid_empty: "\<not> uuid_re_match (strip [])"
  by code_simp

lemma build_index_fails_partway:
  assumes "fst (build_index e good idf) = None"
    and "index_doc idf bad (snd (build_index e good idf)) = Inl err"
  shows "build_index e (good @ bad # rest) idf = (Some err, snd (build_index e good idf))"
proof -
  obtain e1 where e1: "build_index e good idf = (None, e1)"
    using assms(1) by (cases "build_index e good idf") auto
  then show ?thesis using assms(2)
    by (simp add: build_index_def index_all_append)
qed

lemma startup_fetch_fails:
  assumes "fetch_messages_once up 10 None = Some (Inl err)"
  shows "startup (l, e) up = Some (l, e)"
  using assms by (simp add: startup_def load_def)

section \<open>The engine: ranking and the identifier pattern\<close>

lemma insort_key_map:
  "insort_key f (g x) (map g ys) = map g (insort_key (\<lambda>y. f (g y)) x ys)"
  by (induction ys) auto

lemma sort_key_map: "sort_key f (map g xs) = map g (sort_key (\<lambda>y. f (g y)) xs)"
  by (induction xs) (auto simp: insort_key_map)

lemma rank_eq: "rank e ts cands = sort_key (\<lambda>cid. (- score e ts cid, cid)) cands"
  by (simp add: rank_def sort_key_map comp_def)

lemma score_eq:
  "fold (\<lambda>t s. if P t then s + 1 else s) ts (s0::int) = s0 + int (length (filter P ts))"
  by (induction ts arbitrary: s0) auto

lemma score_count: "score e ts cid = int (length (filter (\<lambda>t. cid \<in> index e t) ts))"
  by (simp add: score_def score_eq)

lemma rank_any_listing:
  assumes "distinct xs" "distinct ys" "set xs = set ys"
  shows "rank e ts xs = rank e ts ys"
proof -
  let ?k = "\<lambda>cid. (- score e ts cid, cid)"
  have inj: "inj_on ?k A" for A by (auto simp: inj_on_def)
  have "distinct (map ?k (sort_key ?k xs))" "distinct (map ?k (sort_key ?k ys))"
    using assms inj by (simp_all add: distinct_map)
  then show ?thesis
    unfolding rank_eq using assms(3) inj
    by (intro map_sorted_distinct_set_unique[where f = ?k]) simp_all
qed

lemma ordered_ids_any_listing:
  assumes "finite ids" "distinct xs" "set xs = ids"
  shows "rank e ts xs = rank e ts (sorted_list_of_set ids)"
  using assms by (intro rank_any_listing) simp_all

lemma sorted_wrt_distinct:
  "sorted_wrt P xs \<Longrightarrow> distinct xs \<Longrightarrow> sorted_wrt (\<lambda>a b. P a b \<and> a \<noteq> b) xs"
  by (induction xs) auto

lemma rank_sorted:
  assumes "distinct cands"
  shows "sorted_wrt (\<lambda>a b. score e ts b < score e ts a \<or> (score e ts a = score e ts b \<and> a < b))
           (rank e ts cands)"
proof -
  let ?k = "\<lambda>cid. (- score e ts cid, cid)"
  have "sorted (map ?k (sort_key ?k cands))" by (rule sorted_sort_key)
  then have "sorted_wrt (\<lambda>a b. ?k a \<le> ?k b) (sort_key ?k cands)"
    by (simp add: sorted_map)
  then have "sorted_wrt (\<lambda>a b. ?k a \<le> ?k b \<and> a \<noteq> b) (sort_key ?k cands)"
    using assms by (intro sorted_wrt_distinct) simp_all
  then show ?thesis
    unfolding rank_eq by (rule sorted_wrt_mono_rel[rotated]) (auto simp: less_eq_prod_def)
qed

lemma distinct_substring_scan:
  "distinct (map fst (docs e)) \<Longrightarrow> distinct (substring_scan e query)"
  by (simp add: substring_scan_def distinct_map_filter)

lemma distinct_candidates:
  assumes "wf_engine e"
  shows "distinct (candidates e query ts)"
  using assms distinct_substring_scan[of e query]
  by (auto simp: candidates_def wf_engine_def split: option.splits)

lemma hex_run_Some:
  "hex_run n s = Some r \<Longrightarrow> n \<le> length s \<and> r = drop n s \<and> (\<forall>i<n. is_hex (s ! i))"
proof (induction n s rule: hex_run.induct)
  case (1 s)
  then show ?case by simp
next
  case (2 n)
  then show ?case by simp
next
  case (3 n c cs)
  from "3.prems" have c: "is_hex c" 
    by (simp split: if_splits)
  from "3.prems" have run: "hex_run n cs = Some r"
    by (simp split: if_splits)
  from "3.IH"[OF c run] have ih: "n \<le> length cs" "r = drop n cs" "\<forall>i<n. is_hex (cs ! i)"
    by blast+
  have "is_hex ((c # cs) ! i)" if "i < Suc n" for i
    using that c ih(3) by (cases i) auto
  then show ?case using ih(1,2) by simp
qed

lemma dash_Some: "dash x = Some r \<Longrightarrow> x = Some (CHR ''-'' # r)"
  by (cases x rule: dash.cases) (auto split: if_splits)

lemma hex_dash:
  assumes "dash (hex_run n s) = Some r"
  shows "n < length s \<and> r = drop (Suc n) s \<and> s ! n = CHR ''-'' \<and> (\<forall>i<n. is_hex (s ! i))"
proof -
  from dash_Some[OF assms] have "hex_run n s = Some (CHR ''-'' # r)" .
  from hex_run_Some[OF this] have a: "n \<le> length s" and b: "CHR ''-'' # r = drop n s"
    and c: "\<forall>i<n. is_hex (s ! i)" by blast+
  from b have "drop n s \<noteq> []" by (metis list.distinct(1))
  then have lt: "n < length s" by simp
  then have "drop n s = s ! n # drop (Suc n) s" by (simp add: Cons_nth_drop_Suc)
  with b have "s ! n = CHR ''-''" "r = drop (Suc n) s" by simp_all
  then show ?thesis using lt c by blast
qed

lemma uuid_re_match_parts:
  assumes "uuid_re_match s"
  shows "\<exists>rest. hex_run 12 (drop 24 s) = Some rest \<and> (rest = [] \<or> rest = [CHR 0x0A])
          \<and> 23 < length s \<and> s ! 8 = CHR ''-'' \<and> is_hex (s ! 0)"
proof -
  from assms obtain s1 where 1: "dash (hex_run 8 s) = Some s1"
    by (cases "dash (hex_run 8 s)") (simp_all add: uuid_re_match_def)
  from assms 1 obtain s2 where 2: "dash (hex_run 4 s1) = Some s2"
    by (cases "dash (hex_run 4 s1)") (simp_all add: uuid_re_match_def)
  from assms 1 2 obtain s3 where 3: "dash (hex_run 4 s2) = Some s3"
    by (cases "dash (hex_run 4 s2)") (simp_all add: uuid_re_match_def)
  from assms 1 2 3 obtain s4 where 4: "dash (hex_run 4 s3) = Some s4"
    by (cases "dash (hex_run 4 s3)") (simp_all add: uuid_re_match_def)
  from assms 1 2 3 4 obtain rest where 5: "hex_run 12 s4 = Some rest"
    and 6: "rest = [] \<or> rest = [CHR 0x0A]"
    by (cases "hex_run 12 s4") (simp_all add: uuid_re_match_def)
  note h1 = hex_dash[OF 1] and h2 = hex_dash[OF 2] and h3 = hex_dash[OF 3] and h4 = hex_dash[OF 4]
  have s1: "s1 = drop 9 s" using h1 by simp
  have s2: "s2 = drop 14 s" using h2 unfolding s1 by simp
  have s3: "s3 = drop 19 s" using h3 unfolding s2 by simp
  have s4: "s4 = drop 24 s" using h4 unfolding s3 by simp
  have "4 < length s3" using h4 by blast
  then have "23 < length s" unfolding s3 by simp
  moreover have "s ! 8 = CHR ''-''" using h1 by blast
  moreover have "is_hex (s ! 0)" using h1 by simp
  ultimately show ?thesis using 5 6 unfolding s4 by blast
qed

lemma uuid_re_match_shape:
  assumes "uuid_re_match s"
  shows "(length s = 36 \<or> (length s = 37 \<and> last s = CHR 0x0A)) \<and> is_hex (s ! 0) \<and> s ! 8 = CHR ''-''"
proof -
  from uuid_re_match_parts[OF assms] obtain rest where
    5: "hex_run 12 (drop 24 s) = Some rest" and 6: "rest = [] \<or> rest = [CHR 0x0A]"
    and l: "23 < length s" and d: "s ! 8 = CHR ''-''" and h: "is_hex (s ! 0)" by blast
  from hex_run_Some[OF 5] have le: "12 \<le> length (drop 24 s)" and r: "rest = drop 12 (drop 24 s)"
    by blast+
  have r': "rest = drop 36 s" using r by simp
  have len: "length s = 36 + length rest" using le unfolding r' by simp
  have "last s = CHR 0x0A" if "rest = [CHR 0x0A]"
  proof -
    have "s = take 36 s @ rest" unfolding r' by simp
    then have "last s = last (take 36 s @ rest)" by simp
    also have "\<dots> = CHR 0x0A" using that by simp
    finally show ?thesis .
  qed
  then show ?thesis using len 6 d h by auto
qed

lemma strip_last: "strip s \<noteq> [] \<Longrightarrow> \<not> isspace (last (strip s))"
proof -
  assume a: "strip s \<noteq> []"
  let ?u = "dropWhile isspace (rev (dropWhile isspace s))"
  have u: "?u \<noteq> []" using a by (simp add: strip_def)
  then have "\<not> isspace (hd ?u)" by (rule hd_dropWhile)
  moreover have "last (strip s) = hd ?u" using u by (simp add: strip_def last_rev)
  ultimately show ?thesis by simp
qed

lemma isspace_newline: "isspace (CHR 0x0A)"
  by (simp add: isspace_def code_def)

lemma uuid_strip_length:
  assumes "uuid_re_match (strip query)"
  shows "length (strip query) = 36"
proof -
  from uuid_re_match_shape[OF assms]
  have "length (strip query) = 36 \<or> (length (strip query) = 37 \<and> last (strip query) = CHR 0x0A)"
    by blast
  moreover have "\<not> (length (strip query) = 37 \<and> last (strip query) = CHR 0x0A)"
    using strip_last[of query] isspace_newline by (metis length_0_conv numeral_eq_Suc nat.distinct(1))
  ultimately show ?thesis by blast
qed

lemma code_digit_char: "k < 10 \<Longrightarrow> code (digit_char k) = 48 + k"
  by (simp add: code_def digit_char_def)

lemma nat_digits_codes: "c \<in> set (nat_digits n) \<Longrightarrow> 48 \<le> code c \<and> code c \<le> 57"
proof (induction n rule: nat_digits.induct)
  case (1 n)
  show ?case
  proof (cases "n < 10")
    case True
    then have "nat_digits n = [digit_char n]" by (subst nat_digits.simps) simp
    then show ?thesis using "1.prems" True by (simp add: code_digit_char)
  next
    case False
    then have "nat_digits n = nat_digits (n div 10) @ [digit_char (n mod 10)]"
      by (subst nat_digits.simps) simp
    then have "c \<in> set (nat_digits (n div 10)) \<or> c = digit_char (n mod 10)"
      using "1.prems" by auto
    then show ?thesis
    proof
      assume "c \<in> set (nat_digits (n div 10))"
      then show ?thesis using "1.IH"[OF False] by simp
    next
      assume "c = digit_char (n mod 10)"
      then show ?thesis by (simp add: code_digit_char)
    qed
  qed
qed

lemma str_int_tail:
  assumes "0 < j" "j < length (str_int i)"
  shows "str_int i ! j \<noteq> CHR ''-''"
proof -
  have "\<exists>m. str_int i ! j \<in> set (nat_digits m)"
  proof (cases "i < 0")
    case True
    then have "str_int i = CHR ''-'' # nat_digits (nat (- i))" by (simp add: str_int_def)
    then show ?thesis using assms by (cases j) (auto intro: nth_mem)
  next
    case False
    then have "str_int i = nat_digits (nat i)" by (simp add: str_int_def)
    then show ?thesis using assms by (auto intro: nth_mem)
  qed
  then obtain m where "str_int i ! j \<in> set (nat_digits m)" by blast
  from nat_digits_codes[OF this] show ?thesis by (auto simp: code_def)
qed

lemma uuid_str:
  assumes "uuid_re_match q" "py_str v = q"
  shows "v = JStr q"
proof -
  from uuid_re_match_shape[OF assms(1)]
  have len: "length q = 36 \<or> length q = 37" and h: "is_hex (q ! 0)" and d: "q ! 8 = CHR ''-''"
    by blast+
  show ?thesis
  proof (cases v)
    case JNull
    then show ?thesis using assms(2) len by (auto simp: py_str_def)
  next
    case (JBool b)
    then show ?thesis using assms(2) len by (auto simp: py_str_def split: if_splits)
  next
    case (JNum i)
    then have q: "q = str_int i" using assms(2) by (simp add: py_str_def)
    have "8 < length (str_int i)" using len unfolding q by auto
    from str_int_tail[OF _ this] d show ?thesis unfolding q by simp
  next
    case (JStr s)
    then show ?thesis using assms(2) by (simp add: py_str_def)
  next
    case (JArr xs)
    then have "q ! 0 = CHR 0x5B" using assms(2) by (auto simp: py_str_def)
    then show ?thesis using h by (simp add: is_hex_def code_def)
  next
    case (JObj kvs)
    then have "q ! 0 = CHR 0x7B" using assms(2) by (auto simp: py_str_def)
    then show ?thesis using h by (simp add: is_hex_def code_def)
  qed
qed

lemma uuid_field:
  assumes "uuid_re_match q"
  shows "py_str (dict_get d k) = q \<longleftrightarrow> map_of d k = Some (JStr q)"
proof
  assume a: "py_str (dict_get d k) = q"
  from uuid_str[OF assms a] show "map_of d k = Some (JStr q)"
    by (auto simp: dict_get_def split: option.splits)
next
  assume "map_of d k = Some (JStr q)"
  then show "py_str (dict_get d k) = q" by (simp add: dict_get_def py_str_def)
qed

lemma uuid_matches_exact:
  assumes "uuid_re_match q"
  shows "uuid_matches e q =
     filter (\<lambda>d. map_of d ''id'' = Some (JStr q) \<or> map_of d ''user_id'' = Some (JStr q))
       (map snd (docs e))"
  by (simp add: uuid_matches_def uuid_field[OF assms] filter_map comp_def case_prod_unfold)

lemma lookup_docs_slice:
  assumes "set ids \<subseteq> store_ids e"
  shows "lookup_docs e (py_slice ids s t) = Inr (map (\<lambda>i. the (map_of (docs e) i)) (py_slice ids s t))"
proof -
  have "set (py_slice ids s t) \<subseteq> store_ids e"
    using assms set_py_slice[of ids s t] by blast
  then show ?thesis by (rule lookup_docs_known)
qed

section \<open>The fetcher: one page and the loop\<close>

text \<open>\<open>int\<close> on strings: blanks and underscores are accepted where Python accepts them,
  and a control character that \<open>str.strip\<close> would remove makes the conversion fail.\<close>

lemma int_of_str_examples:
  "int_of_str '' -1_000 '' = Some (- 1000)"
  "int_of_str ''+007'' = Some 7"
  "int_of_str ''1__0'' = None"
  "int_of_str ''7_'' = None"
  "int_of_str [CHR 0x1C, CHR ''7''] = None"
  "int_of_str [CHR ''7'', CHR 0xA0] = Some 7"
  by code_simp+

lemma py_int_control_char:
  "py_int (JStr [CHR 0x1C, CHR ''1'']) = Inl ValueError"
  "total_reached (JStr [CHR 0x1C, CHR ''1'']) 1 = Inl ValueError"
  by code_simp+

lemma control_total_fails_call:
  "fetch_messages_once control_total_upstream 10 (Some 1) = Some (Inl ValueError)"
proof -
  have "total_reached (JStr [CHR 0x1C, CHR ''1'']) (Suc 0) = Inl ValueError" by code_simp
  then show ?thesis
    by (simp add: fetch_messages_once_def control_total_upstream_def fetch_loop.simps
        page_step_def dict_get_def eval_nat_numeral)
qed

lemma int_of_str_digit_limit:
  "max_str_digits < length (filter is_digit s) \<Longrightarrow> py_int (JStr s) = Inl ValueError"
  by (simp add: int_of_str_def)

lemma attempts_transient:
  assumes "list_all (\<lambda>i. transient (up (n + i) sk ch)) [0..<j]"
  shows "\<exists>le. attempts up sk ch (j + k) (lx, dat, n) = attempts up sk ch k (le, dat, n + j)"
  using assms
proof (induction j arbitrary: lx n)
  case 0
  show ?case by (intro exI[of _ lx]) simp
next
  case (Suc j)
  have all: "\<forall>i<Suc j. transient (up (n + i) sk ch)"
    using Suc.prems by (auto simp: list_all_iff less_Suc_eq)
  then have t0: "transient (up n sk ch)" by (metis add.right_neutral zero_less_Suc)
  have "transient (up (Suc n + i) sk ch)" if "i < j" for i
    using all[rule_format, of "Suc i"] that by simp
  then have "list_all (\<lambda>i. transient (up (Suc n + i) sk ch)) [0..<j]"
    by (simp add: list_all_iff)
  from Suc.IH[OF this] have ih: "\<exists>le. attempts up sk ch (j + k) (le1, dat, Suc n)
       = attempts up sk ch k (le, dat, Suc n + j)" for le1 by blast
  show ?case
  proof (cases "up n sk ch")
    case (Body d)
    then show ?thesis using t0 by simp
  next
    case (HttpError status)
    then show ?thesis using t0 ih[of "Some (HTTPError status)"] by auto
  next
    case NetError
    then show ?thesis using ih[of "Some RequestException"] by auto
  qed
qed

lemma attempts_body:
  assumes "answers up chunk st j (Body d)"
  shows "attempts up (skip st) chunk 3 (None, data st, sent st) = (None, Some d, Suc (sent st + j))"
proof -
  from assms have j: "j < 3"
    and tr: "list_all (\<lambda>i. transient (up (sent st + i) (skip st) chunk)) [0..<j]"
    and b: "up (sent st + j) (skip st) chunk = Body d"
    by (auto simp: answers_def)
  from j obtain k where k: "3 = j + Suc k" by (metis add_Suc_right less_iff_Suc_add)
  from attempts_transient[where up = up and n = "sent st" and sk = "skip st" and ch = chunk
      and j = j and k = "Suc k" and lx = None and dat = "data st"] tr obtain le where
    "attempts up (skip st) chunk (j + Suc k) (None, data st, sent st)
       = attempts up (skip st) chunk (Suc k) (le, data st, sent st + j)" by blast
  then show ?thesis using b unfolding k[symmetric] by simp
qed


lemma fetch_loop_pages:
  "pages up chunk k st0 = Some st \<Longrightarrow> fetch_loop up chunk st0 = fetch_loop up chunk st"
proof (induction k arbitrary: st0)
  case 0
  then show ?case by simp
next
  case (Suc k)
  then obtain st1 where s: "page_step up chunk st0 = Next st1" and p: "pages up chunk k st1 = Some st"
    by (cases "page_step up chunk st0") auto
  have "fetch_loop up chunk st0 = fetch_loop up chunk st1"
    by (subst fetch_loop.simps) (simp add: s)
  then show ?case using Suc.IH[OF p] by simp
qed

lemma fetch_loop_outcome:
  "outcome (page_step up chunk st) = Some r \<Longrightarrow> fetch_loop up chunk st = Some r"
  by (subst fetch_loop.simps) (cases "page_step up chunk st"; simp)




lemma page_step_body:
  assumes "answers up chunk st j (Body d)"
  shows "page_step up chunk st =
     (case normalize d of
        Inl err \<Rightarrow> Raise err
      | Inr (items, tot) \<Rightarrow>
          if items = [] then Return (all_items st)
          else
            (case total_reached tot (length (all_items st @ items)) of
               Inl err \<Rightarrow> Raise err
             | Inr reached \<Rightarrow>
                 if reached then Return (all_items st @ items)
                 else if int (length items) < chunk then Return (all_items st @ items)
                 else Next \<lparr>all_items = all_items st @ items,
                            skip = skip st + chunk, data = Some d, sent = Suc (sent st + j)\<rparr>))"
  by (simp add: page_step_def attempts_body[OF assms])

lemma first_list_None:
  "\<forall>key\<in>set keys. \<not> has_list d key \<Longrightarrow> first_list d keys = None"
  by (induction keys) (auto split: option.splits json.splits)

lemma normalize_unexpected:
  assumes "\<not> accepted_shape d"
  shows "normalize d = (if is_dict d then Inr ([], JNull) else Inl ValueError)"
proof (cases d)
  case (JObj kvs)
  then have a: "\<not> has_list kvs ''items''" and b: "\<forall>key\<in>set [''messages'', ''data'', ''results'']. \<not> has_list kvs key"
    and c: "\<not> list_all is_dict (map snd kvs)" using assms by auto
  have "first_list kvs [''messages'', ''data'', ''results''] = None"
    by (rule first_list_None[OF b])
  then show ?thesis using JObj a c by (auto split: option.splits json.splits)
qed (use assms in auto)

lemma first_page_full:
  assumes "up 0 0 1 = Body (JArr [doc_a])"
  shows "pages up 1 1 start_state
     = Some \<lparr>all_items = [doc_a], skip = 1, data = Some (JArr [doc_a]), sent = 1\<rparr>"
  using assms
  by (simp add: start_state_def page_step_def total_reached_def eval_nat_numeral)


section \<open>The claims\<close>

subsection \<open>C1: exhausted retries\<close>

text \<open>
  C1. The code does not do what the claim says when the three attempts of a page all
  fail. On the first page the variable \<open>data\<close> is still unbound when line 81 reads it:
  with the upstream unreachable, the call raises \<open>UnboundLocalError\<close>. On a later page
  \<open>data\<close> still holds the payload of the page before, so the loop does not stop: it takes
  the items of that page a second time and goes on to the next offset. Below, page 1
  delivers one document, page 2 fails three times and page 3 answers 401: the call
  returns the document twice.
\<close>

theorem exhausted_retries_not_terminal:
  "fetch_messages_once dead_upstream 10 None = Some (Inl UnboundLocalError)
   \<and> fetch_messages_once flaky_upstream 10 (Some 1) = Some (Inr [doc_a, doc_a])"
  by (simp add: fetch_messages_once_def probe_def dead_upstream_def flaky_upstream_def
      fetch_loop.simps page_step_def total_reached_def eval_nat_numeral)

subsection \<open>C2: a rebuild works in place\<close>

text \<open>
  C2, as amended. \<open>build_index\<close> empties the store and the index of the engine and fills
  them again, document by document. What it leaves depends on the documents only, not on
  what the engine held before. It is not all-or-nothing: when the round of some document
  raises, the engine holds the build of the documents before that one. When the fetch at
  start-up raises, \<open>build_index\<close> is not run and the engine is as it was.
\<close>

theorem rebuild_in_place:
  "build_index e ds id_field = build_index init_engine ds id_field
   \<and> (fst (build_index e good id_field) = None
        \<and> index_doc id_field bad (snd (build_index e good id_field)) = Inl err
      \<longrightarrow> build_index e (good @ bad # rest) id_field
            = (Some err, snd (build_index init_engine good id_field)))
   \<and> (fetch_messages_once up 10 None = Some (Inl err') \<longrightarrow> startup (l, e) up = Some (l, e))"
  using build_index_fails_partway[of e good id_field bad err rest]
    build_index_from_scratch[of e ds id_field] build_index_from_scratch[of e good id_field]
    startup_fetch_fails[of up err' l e]
  by auto

theorem rebuild_in_place_witness:
  "build_index old_engine half_docs ''id''
     = (Some TypeError, snd (build_index init_engine [JObj [(''id'', JStr ''9''), (''text'', JStr ''new'')]] ''id''))
   \<and> startup (\<lparr>loader_docs = []\<rparr>, old_engine) dead_upstream = Some (\<lparr>loader_docs = []\<rparr>, old_engine)"
proof -
  let ?good = "[JObj [(''id'', JStr ''9''), (''text'', JStr ''new'')]]"
  have a: "fst (build_index old_engine ?good ''id'') = None"
    by (simp add: build_index_def split: option.splits)
  have b: "index_doc ''id'' (JNum 5) (snd (build_index old_engine ?good ''id'')) = Inl TypeError"
    by simp
  have c: "fetch_messages_once dead_upstream 10 None = Some (Inl UnboundLocalError)"
    by (simp add: fetch_messages_once_def probe_def dead_upstream_def fetch_loop.simps
        page_step_def eval_nat_numeral)
  note inst = rebuild_in_place [of old_engine half_docs "''id''" ?good "JNum 5" TypeError "[]"
        dead_upstream UnboundLocalError "\<lparr>loader_docs = []\<rparr>"]
  from inst a b have 1: "build_index old_engine (?good @ JNum 5 # []) ''id''
      = (Some TypeError, snd (build_index init_engine ?good ''id''))" by blast
  from inst c have 2: "startup (\<lparr>loader_docs = []\<rparr>, old_engine) dead_upstream
      = Some (\<lparr>loader_docs = []\<rparr>, old_engine)" by blast
  show ?thesis using 1 2 by (simp add: half_docs_def)
qed

text \<open>The claim as written fails: a rebuild that raises at its second document has
  replaced the three documents of the engine by the first document of the new list.\<close>

theorem failed_rebuild_changes_engine:
  "fst (build_index old_engine half_docs ''id'') = Some TypeError
   \<and> map fst (docs old_engine) = [''1'', ''2'', ''3'']
   \<and> map fst (docs (snd (build_index old_engine half_docs ''id''))) = [''9'']"
  by code_simp

subsection \<open>C3: the store and the posting sets\<close>

text \<open>
  C3, as amended. After \<open>build_index\<close>, every identifier in a posting set is a key of
  the document store, and every key of the store whose document yields at least one
  token is in a posting set.
\<close>

theorem snapshot_consistency:
  "posting_ids (snd (build_index e0 ds id_field)) \<subseteq> store_ids (snd (build_index e0 ds id_field))
   \<and> (\<forall>(k, d)\<in>set (docs (snd (build_index e0 ds id_field))).
         doc_tokens d \<noteq> [] \<longrightarrow> k \<in> posting_ids (snd (build_index e0 ds id_field)))"
proof -
  let ?e = "snd (build_index e0 ds id_field)"
  have 1: "posting_ids ?e \<subseteq> store_ids ?e"
    using wf_build_index[of e0 ds id_field] by (simp add: wf_engine_def)
  have 2: "k \<in> posting_ids ?e" if "(k, d) \<in> set (docs ?e)" "doc_tokens d \<noteq> []" for k d
  proof -
    from that(2) obtain t where t: "t \<in> set (doc_tokens d)" by (cases "doc_tokens d") auto
    with tokens_indexed_build[of e0 ds id_field] that(1) have "k \<in> index ?e t" by blast
    then show ?thesis by (auto simp: posting_ids_def)
  qed
  show ?thesis using 1 2 by blast
qed

theorem snapshot_consistency_witness:
  "posting_ids (snd (build_index init_engine ex_docs ''id''))
     \<subseteq> store_ids (snd (build_index init_engine ex_docs ''id''))
   \<and> ''1'' \<in> posting_ids (snd (build_index init_engine ex_docs ''id''))"
proof -
  let ?d = "[(''id'', JStr ''1''), (''text'', JStr ''Hello world'')]"
  have a: "(''1'', ?d) \<in> set (docs (snd (build_index init_engine ex_docs ''id'')))"
    by code_simp
  have b: "doc_tokens ?d \<noteq> []" by code_simp
  show ?thesis
    using snapshot_consistency [of init_engine ex_docs "''id''"] a b by blast
qed

text \<open>The claim as written fails: a document without a string value is stored, and its
  identifier is in no posting set.\<close>

theorem store_id_without_posting:
  "fst (build_index init_engine bare_docs ''id'') = None
   \<and> ''7'' \<in> store_ids (snd (build_index init_engine bare_docs ''id''))
   \<and> ''7'' \<notin> posting_ids (snd (build_index init_engine bare_docs ''id''))"
proof -
  have "py_str (JNum 7) = ''7''" by code_simp
  then show ?thesis
    by (simp add: build_index_def init_engine_def bare_docs_def resolve_id_def add_doc_def
        store_ids_def posting_ids_def tokenize_def)
qed

subsection \<open>C4: identifier-shaped queries\<close>

text \<open>
  C4. When the stripped query matches the identifier pattern (which then has exactly 36
  characters: the newline that \<open>$\<close> tolerates cannot be there after \<open>strip\<close>), \<open>search\<close>
  returns the slice of the stored documents whose \<open>id\<close> entry or \<open>user_id\<close> entry is the
  string equal to the stripped query, and \<open>total\<close> is their number. The index plays no
  part: a document that only holds the identifier in a text is not returned.
\<close>

theorem identifier_query_exact:
  assumes "uuid_re_match (strip query)"
  shows "search e query page page_size =
           Inr (int (length (filter (\<lambda>d. map_of d ''id'' = Some (JStr (strip query))
                                        \<or> map_of d ''user_id'' = Some (JStr (strip query)))
                               (map snd (docs e)))),
                py_slice (filter (\<lambda>d. map_of d ''id'' = Some (JStr (strip query))
                                        \<or> map_of d ''user_id'' = Some (JStr (strip query)))
                               (map snd (docs e)))
                  ((page - 1) * page_size) ((page - 1) * page_size + page_size))
       \<and> length (strip query) = 36"
  using assms uuid_strip_length[OF assms]
  by (simp add: search_def Let_def uuid_matches_exact)

theorem identifier_query_exact_witness:
  "search (snd (build_index init_engine uuid_docs ''id'')) uuid_query 1 10 =
     Inr (2, [[(''id'', JStr ''12345678-1234-1234-1234-123456789abc''), (''text'', JStr ''first'')],
              [(''id'', JStr ''y''), (''user_id'', JStr ''12345678-1234-1234-1234-123456789abc'')]])
   \<and> length (strip uuid_query) = 36"
proof -
  have a: "uuid_re_match (strip uuid_query)" by code_simp
  have b: "strip uuid_query = ''12345678-1234-1234-1234-123456789abc''" by code_simp
  have c: "map snd (docs (snd (build_index init_engine uuid_docs ''id''))) =
    [[(''id'', JStr ''12345678-1234-1234-1234-123456789abc''), (''text'', JStr ''first'')],
     [(''id'', JStr ''x''), (''text'', JStr ''see 12345678-1234-1234-1234-123456789abc'')],
     [(''id'', JStr ''y''), (''user_id'', JStr ''12345678-1234-1234-1234-123456789abc'')]]"
    by code_simp
  show ?thesis
    using identifier_query_exact [OF a, of "snd (build_index init_engine uuid_docs ''id'')" 1 10]
    unfolding b c by (simp add: py_slice_def slice_bound_def)
qed

subsection \<open>C5: the general query\<close>

text \<open>
  C5, as amended. For a query that is not identifier-shaped and has at least one token,
  on a built index: the candidates are the union of the posting sets of the query
  tokens, or, exactly when that union is empty, the ids of the stored documents whose
  lowercased string values, joined by blanks, contain the lowercased query; the ranked
  ids are these candidates, each once, in the order of descending score and then
  ascending id; the score of an id is the number of query tokens (counted as often as
  they occur in the query) under which it is indexed; \<open>total\<close> is the number of
  candidates and the results are the documents of the slice of the ranked ids.
\<close>

theorem general_query_ranking:
  assumes "\<not> uuid_re_match (strip query)" "tokenize query \<noteq> []"
  shows
    "set (ordered_ids (snd (build_index e0 ds id_field)) query) =
       (if (\<Union>t\<in>set (tokenize query). index (snd (build_index e0 ds id_field)) t) = {}
        then {k. \<exists>d. (k, d) \<in> set (docs (snd (build_index e0 ds id_field)))
                  \<and> str_contains (join '' '' (map lower (str_values d))) (lower query)}
        else (\<Union>t\<in>set (tokenize query). index (snd (build_index e0 ds id_field)) t))
   \<and> distinct (ordered_ids (snd (build_index e0 ds id_field)) query)
   \<and> sorted_wrt (\<lambda>a b. score (snd (build_index e0 ds id_field)) (tokenize query) b
                          < score (snd (build_index e0 ds id_field)) (tokenize query) a
                      \<or> (score (snd (build_index e0 ds id_field)) (tokenize query) a
                           = score (snd (build_index e0 ds id_field)) (tokenize query) b \<and> a < b))
        (ordered_ids (snd (build_index e0 ds id_field)) query)
   \<and> (\<forall>cid. score (snd (build_index e0 ds id_field)) (tokenize query) cid
             = int (length (filter (\<lambda>t. cid \<in> index (snd (build_index e0 ds id_field)) t)
                                   (tokenize query))))
   \<and> search (snd (build_index e0 ds id_field)) query page page_size =
       Inr (int (length (ordered_ids (snd (build_index e0 ds id_field)) query)),
            map (\<lambda>i. the (map_of (docs (snd (build_index e0 ds id_field))) i))
              (py_slice (ordered_ids (snd (build_index e0 ds id_field)) query)
                 ((page - 1) * page_size) ((page - 1) * page_size + page_size)))"
proof -
  let ?e = "snd (build_index e0 ds id_field)"
  let ?ts = "tokenize query"
  have wf: "wf_engine ?e" by (rule wf_build_index)
  have q: "query \<noteq> []" using assms(2) by (auto simp: tokenize_def)
  have 1: "set (ordered_ids ?e query) =
       (if (\<Union>t\<in>set ?ts. index ?e t) = {}
        then {k. \<exists>d. (k, d) \<in> set (docs ?e)
                  \<and> str_contains (join '' '' (map lower (str_values d))) (lower query)}
        else (\<Union>t\<in>set ?ts. index ?e t))"
    by (simp only: ordered_ids_def set_rank set_candidates[OF wf assms(2)] set_substring_scan)
  have dc: "distinct (candidates ?e query ?ts)" by (rule distinct_candidates[OF wf])
  have 2: "distinct (ordered_ids ?e query)"
    using dc by (simp add: ordered_ids_def rank_eq)
  have 3: "sorted_wrt (\<lambda>a b. score ?e ?ts b < score ?e ?ts a
                      \<or> (score ?e ?ts a = score ?e ?ts b \<and> a < b)) (ordered_ids ?e query)"
    unfolding ordered_ids_def by (rule rank_sorted[OF dc])
  have 4: "\<forall>cid. score ?e ?ts cid = int (length (filter (\<lambda>t. cid \<in> index ?e t) ?ts))"
    by (simp add: score_count)
  have sub: "set (ordered_ids ?e query) \<subseteq> store_ids ?e"
    using candidates_subset[OF wf assms(2)] by (simp add: ordered_ids_def set_rank)
  have 5: "search ?e query page page_size =
       Inr (int (length (ordered_ids ?e query)),
            map (\<lambda>i. the (map_of (docs ?e) i))
              (py_slice (ordered_ids ?e query) ((page - 1) * page_size) ((page - 1) * page_size + page_size)))"
    using assms q lookup_docs_slice[OF sub] by (simp add: search_def Let_def)
  show ?thesis using 1 2 3 4 5 by (intro conjI)
qed

theorem general_query_ranking_witness:
  "set (ordered_ids (snd (build_index init_engine ex_docs ''id'')) ''world hello'')
     = {''1'', ''2'', ''3''}
   \<and> distinct (ordered_ids (snd (build_index init_engine ex_docs ''id'')) ''world hello'')
   \<and> search (snd (build_index init_engine ex_docs ''id'')) ''world hello'' 1 2 =
       Inr (3, [[(''id'', JStr ''1''), (''text'', JStr ''Hello world'')],
                [(''id'', JStr ''2''), (''text'', JStr ''Goodbye world'')]])"
proof -
  let ?e = "snd (build_index init_engine ex_docs ''id'')"
  have a: "\<not> uuid_re_match (strip ''world hello'')" by code_simp
  have b: "tokenize ''world hello'' \<noteq> []" by code_simp
  have u: "(\<Union>t\<in>set (tokenize ''world hello''). index ?e t) = {''1'', ''2'', ''3''}"
    by code_simp
  have o: "ordered_ids ?e ''world hello'' = [''1'', ''2'', ''3'']" by code_simp
  have m: "map (\<lambda>i. the (map_of (docs ?e) i)) (py_slice [''1'', ''2'', ''3''] ((1 - 1) * 2) ((1 - 1) * 2 + 2))
      = [[(''id'', JStr ''1''), (''text'', JStr ''Hello world'')],
         [(''id'', JStr ''2''), (''text'', JStr ''Goodbye world'')]]" by code_simp
  note inst = general_query_ranking [OF a b, of init_engine ex_docs "''id''" 1 2]
  from inst have 1: "set (ordered_ids ?e ''world hello'') =
       (if (\<Union>t\<in>set (tokenize ''world hello''). index ?e t) = {}
        then {k. \<exists>d. (k, d) \<in> set (docs ?e)
                  \<and> str_contains (join '' '' (map lower (str_values d))) (lower ''world hello'')}
        else (\<Union>t\<in>set (tokenize ''world hello''). index ?e t))" by (rule conjunct1)
  from inst have 2: "distinct (ordered_ids ?e ''world hello'')" by blast
  from inst have 3: "search ?e ''world hello'' 1 2 =
       Inr (int (length (ordered_ids ?e ''world hello'')),
            map (\<lambda>i. the (map_of (docs ?e) i))
              (py_slice (ordered_ids ?e ''world hello'') ((1 - 1) * 2) ((1 - 1) * 2 + 2)))" by blast
  have s1: "set (ordered_ids ?e ''world hello'') = {''1'', ''2'', ''3''}"
    using 1 unfolding u by simp
  have s3: "search ?e ''world hello'' 1 2 =
       Inr (3, [[(''id'', JStr ''1''), (''text'', JStr ''Hello world'')],
                [(''id'', JStr ''2''), (''text'', JStr ''Goodbye world'')]])"
    using 3 unfolding o m by simp
  show ?thesis using s1 2 s3 by (intro conjI)
qed

text \<open>The claim as written fails for an identifier-shaped query: it has tokens, and the
  posting set of its first token holds the document \<open>x\<close>, but \<open>search\<close> takes the exact
  path and returns the two documents whose \<open>id\<close> or \<open>user_id\<close> is the identifier.\<close>

theorem identifier_query_skips_index:
  "tokenize uuid_query \<noteq> []
   \<and> ''12345678'' \<in> set (tokenize uuid_query)
   \<and> ''x'' \<in> index (snd (build_index init_engine uuid_docs ''id'')) ''12345678''
   \<and> search (snd (build_index init_engine uuid_docs ''id'')) uuid_query 1 10 =
     Inr (2, [[(''id'', JStr ''12345678-1234-1234-1234-123456789abc''), (''text'', JStr ''first'')],
              [(''id'', JStr ''y''), (''user_id'', JStr ''12345678-1234-1234-1234-123456789abc'')]])"
  by code_simp

subsection \<open>C6: the pages partition one ranked sequence\<close>

text \<open>
  C6. On a built index and for \<open>page_size \<ge> 1\<close>, page \<open>p \<ge> 1\<close> of a query is the slice
  from \<open>(p - 1) * page_size\<close>, of length \<open>page_size\<close>, of one sequence of documents,
  \<open>ranked_docs\<close>, which is also what one page large enough returns; \<open>total\<close> is its
  length; and the first \<open>n\<close> pages, one after the other, are its first \<open>n * page_size\<close>
  documents, so nothing is left out and nothing comes twice.
\<close>

theorem search_pagination:
  assumes "1 \<le> page_size"
  shows "(\<forall>page. 1 \<le> page \<longrightarrow>
            search (snd (build_index e0 ds id_field)) query page page_size =
              Inr (int (length (ranked_docs (snd (build_index e0 ds id_field)) query)),
                   take (nat page_size) (drop (nat ((page - 1) * page_size))
                     (ranked_docs (snd (build_index e0 ds id_field)) query))))
       \<and> (\<forall>n. concat (map (\<lambda>k. hits (search (snd (build_index e0 ds id_field)) query (int k + 1) page_size)) [0..<n])
               = take (n * nat page_size) (ranked_docs (snd (build_index e0 ds id_field)) query))
       \<and> search (snd (build_index e0 ds id_field)) query 1
            (max 1 (int (length (ranked_docs (snd (build_index e0 ds id_field)) query))))
           = Inr (int (length (ranked_docs (snd (build_index e0 ds id_field)) query)),
                  ranked_docs (snd (build_index e0 ds id_field)) query)"
proof -
  let ?e = "snd (build_index e0 ds id_field)"
  let ?full = "ranked_docs ?e query"
  have wf: "wf_engine ?e" by (rule wf_build_index)
  have page: "search ?e query page page_size =
      Inr (int (length ?full), take (nat page_size) (drop (nat ((page - 1) * page_size)) ?full))"
    if "1 \<le> page" for page
    by (rule search_pages[OF wf that assms])
  have "hits (search ?e query (int k + 1) page_size) = take (nat page_size) (drop (k * nat page_size) ?full)" for k
  proof -
    have "nat (int k * page_size) = k * nat page_size"
      using assms by (simp add: nat_mult_distrib)
    then show ?thesis using page[of "int k + 1"] by simp
  qed
  then have cat: "concat (map (\<lambda>k. hits (search ?e query (int k + 1) page_size)) [0..<n])
      = take (n * nat page_size) ?full" for n
    using concat_pages[of "nat page_size" ?full n] by simp
  have one: "search ?e query 1 (max 1 (int (length ?full))) = Inr (int (length ?full), ?full)"
    using search_pages[OF wf, of 1 "max 1 (int (length ?full))" query] by simp
  show ?thesis using page cat one by blast
qed

theorem search_pagination_witness:
  "search (snd (build_index init_engine ex_docs ''id'')) ''world hello'' 2 2 =
      Inr (3, [[(''id'', JStr ''3''), (''text'', JStr ''Hello there'')]])
   \<and> concat (map (\<lambda>k. hits (search (snd (build_index init_engine ex_docs ''id'')) ''world hello'' (int k + 1) 2)) [0..<2])
      = [[(''id'', JStr ''1''), (''text'', JStr ''Hello world'')],
         [(''id'', JStr ''2''), (''text'', JStr ''Goodbye world'')],
         [(''id'', JStr ''3''), (''text'', JStr ''Hello there'')]]"
proof -
  have r: "ranked_docs (snd (build_index init_engine ex_docs ''id'')) ''world hello''
      = [[(''id'', JStr ''1''), (''text'', JStr ''Hello world'')],
         [(''id'', JStr ''2''), (''text'', JStr ''Goodbye world'')],
         [(''id'', JStr ''3''), (''text'', JStr ''Hello there'')]]"
    by code_simp
  have h: "(1::int) \<le> 2" by simp
  from search_pagination [OF h, of init_engine ex_docs "''id''" "''world hello''"]
  have p: "search (snd (build_index init_engine ex_docs ''id'')) ''world hello'' 2 2 =
              Inr (int (length (ranked_docs (snd (build_index init_engine ex_docs ''id'')) ''world hello'')),
                   take (nat 2) (drop (nat ((2 - 1) * 2))
                     (ranked_docs (snd (build_index init_engine ex_docs ''id'')) ''world hello'')))"
    and c: "concat (map (\<lambda>k. hits (search (snd (build_index init_engine ex_docs ''id'')) ''world hello'' (int k + 1) 2)) [0..<2])
               = take (2 * nat 2) (ranked_docs (snd (build_index init_engine ex_docs ''id'')) ''world hello'')"
    by auto
  show ?thesis using p c unfolding r by simp
qed

subsection \<open>C7: the empty query\<close>

text \<open>
  C7, as amended. After a \<open>build_index\<close> that completes, the empty query returns as
  \<open>total\<close> the number of distinct identifiers that the documents resolve to (through
  \<open>id_field\<close>, else through \<open>_id\<close>), which is the number of documents with an identifier
  when no two of them resolve to the same one; and it returns the stored documents in the
  order of the store, sliced.
\<close>

theorem empty_query_total:
  assumes "build_index e0 ds id_field = (None, e)"
  shows "search e [] 1 n =
           Inr (int (card (set (resolved_ids id_field ds))), py_slice (map snd (docs e)) 0 n)
       \<and> (distinct (resolved_ids id_field ds) \<longrightarrow>
            card (set (resolved_ids id_field ds)) = length (resolved_ids id_field ds))"
proof -
  have e: "e = snd (build_index e0 ds id_field)" using assms by simp
  have wf: "wf_engine e" unfolding e by (rule wf_build_index)
  then have d: "distinct (map fst (docs e))" by (simp add: wf_engine_def)
  have "card (store_ids e) = length (map fst (docs e))"
    unfolding store_ids_def using distinct_card[OF d] by simp
  then have len: "length (docs e) = card (set (resolved_ids id_field ds))"
    using store_ids_build_index[OF assms] by simp
  have "set (py_slice (docs e) 0 n) \<subseteq> set (docs e)" by (rule set_py_slice)
  then have "lookup_docs e (map fst (py_slice (docs e) 0 n)) = Inr (map snd (py_slice (docs e) 0 n))"
    using d by (intro lookup_docs_entries)
  then have "search e [] 1 n = Inr (int (length (docs e)), py_slice (map snd (docs e)) 0 n)"
    using not_uuid_empty by (simp add: search_def Let_def py_slice_map)
  then show ?thesis using len by (simp add: distinct_card)
qed

theorem empty_query_total_witness:
  "search (snd (build_index init_engine ex_docs ''id'')) [] 1 2 =
     Inr (3, [[(''id'', JStr ''1''), (''text'', JStr ''Hello world'')],
              [(''id'', JStr ''2''), (''text'', JStr ''Goodbye world'')]])
   \<and> card (set (resolved_ids ''id'' ex_docs)) = 3"
proof -
  have "fst (build_index init_engine ex_docs ''id'') = None" by code_simp
  then have a: "build_index init_engine ex_docs ''id'' = (None, snd (build_index init_engine ex_docs ''id''))"
    by (simp add: prod_eq_iff)
  have b: "resolved_ids ''id'' ex_docs = [''1'', ''2'', ''3'']" by code_simp
  have c: "py_slice (map snd (docs (snd (build_index init_engine ex_docs ''id'')))) 0 2
         = [[(''id'', JStr ''1''), (''text'', JStr ''Hello world'')],
              [(''id'', JStr ''2''), (''text'', JStr ''Goodbye world'')]]" by code_simp
  have d: "distinct [''1'', ''2'', ''3'']" by simp
  show ?thesis
    using empty_query_total [OF a, of 2] b c d by simp
qed

text \<open>The claim as written fails: two documents with the same identifier count once.\<close>

theorem duplicate_ids_counted_once:
  "fst (build_index init_engine dup_docs ''id'') = None
   \<and> length (resolved_ids ''id'' dup_docs) = 2
   \<and> search (snd (build_index init_engine dup_docs ''id'')) [] 1 10 =
       Inr (1, [[(''id'', JStr ''1''), (''text'', JStr ''second'')]])"
  by code_simp

subsection \<open>C8: a payload of no accepted shape\<close>

text \<open>
  C8. The code does not do what the claim says for an object of no accepted shape: it
  takes it for a page without items, stops paging and returns the documents collected so
  far. Below, page 1 delivers one document and page 2 is the object \<open>{"foo": 1}\<close>: the call
  returns the document of page 1 and raises nothing.
\<close>

theorem unknown_object_is_empty_page:
  "fetch_messages_once odd_upstream 10 (Some 1) = Some (Inr [doc_a])"
  by (simp add: fetch_messages_once_def odd_upstream_def
      fetch_loop.simps page_step_def total_reached_def eval_nat_numeral)

text \<open>What the loop does with every payload of no accepted shape, on whatever page it
  comes: only one that is neither an array nor an object fails the call.\<close>

lemma unexpected_shape:
  assumes "pages up chunk k st0 = Some st" "answers up chunk st j (Body d)" "\<not> accepted_shape d"
  shows "fetch_loop up chunk st0 = Some (if is_dict d then Inr (all_items st) else Inl ValueError)"
proof -
  have "outcome (page_step up chunk st) = Some (if is_dict d then Inr (all_items st) else Inl ValueError)"
    by (simp add: page_step_body[OF assms(2)] normalize_unexpected[OF assms(3)])
  then have "fetch_loop up chunk st = Some (if is_dict d then Inr (all_items st) else Inl ValueError)"
    by (rule fetch_loop_outcome)
  then show ?thesis using fetch_loop_pages[OF assms(1)] by simp
qed

lemma scalar_payload_fails_call:
  "fetch_messages_once scalar_upstream 10 (Some 1) = Some (Inl ValueError)"
proof -
  let ?st = "\<lparr>all_items = [doc_a], skip = 1, data = Some (JArr [doc_a]), sent = 1\<rparr>"
  have a: "pages scalar_upstream 1 1 start_state = Some ?st"
    by (rule first_page_full) (simp add: scalar_upstream_def)
  have b: "answers scalar_upstream 1 ?st 0 (Body (JStr ''busy''))"
    by (simp add: answers_def scalar_upstream_def)
  have c: "\<not> accepted_shape (JStr ''busy'')" by simp
  show ?thesis
    using unexpected_shape [OF a b c]
    by (simp add: fetch_messages_once_def start_state_def)
qed

subsection \<open>C9: when the paging loop stops\<close>




subsection \<open>C10: \<open>search\<close> returns normally on a built index\<close>

text \<open>
  C10. On the engine that \<open>build_index\<close> leaves, whatever the documents and the engine
  before, \<open>search\<close> with \<open>page \<ge> 1\<close> and \<open>page_size \<ge> 1\<close> raises nothing: it returns a
  pair \<open>(total, results)\<close> with at most \<open>page_size\<close> results, each of them a value of
  the document store, and \<open>total\<close> at least the number of results.
\<close>

theorem search_returns:
  assumes "1 \<le> page" "1 \<le> page_size"
  shows "\<exists>total results.
      search (snd (build_index e0 ds id_field)) query page page_size = Inr (total, results)
    \<and> int (length results) \<le> page_size
    \<and> set results \<subseteq> snd ` set (docs (snd (build_index e0 ds id_field)))
    \<and> int (length results) \<le> total"
proof -
  let ?e = "snd (build_index e0 ds id_field)"
  let ?full = "ranked_docs ?e query"
  let ?res = "take (nat page_size) (drop (nat ((page - 1) * page_size)) ?full)"
  have wf: "wf_engine ?e" by (rule wf_build_index)
  have 1: "search ?e query page page_size = Inr (int (length ?full), ?res)"
    by (rule search_pages[OF wf assms])
  have 2: "int (length ?res) \<le> page_size" using assms by simp
  have 3: "set ?res \<subseteq> snd ` set (docs ?e)"
    using ranked_docs_in_store[OF wf, of query]
    by (meson set_take_subset set_drop_subset subset_trans)
  have 4: "int (length ?res) \<le> int (length ?full)" by simp
  show ?thesis using 1 2 3 4 by blast
qed

theorem search_returns_witness:
  "\<exists>total results.
      search (snd (build_index init_engine ex_docs ''id'')) ''hello'' 1 10 = Inr (total, results)
    \<and> int (length results) \<le> 10
    \<and> set results \<subseteq> snd ` set (docs (snd (build_index init_engine ex_docs ''id'')))
    \<and> int (length results) \<le> total"
  using search_returns [of 1 10 init_engine ex_docs "''id''" "''hello''"] by simp

end
